theory Spec2Isabelle
  imports Main "HOL-Library.Word"
begin

section \<open>Collective array I/O (runtime/flang/descRW.c)\<close>

subsection \<open>Data model\<close>

text \<open>
  An address is a C \<^verbatim>\<open>char *\<close>, modelled as an integer; \<^verbatim>\<open>NULL\<close> is 0.
  C \<^verbatim>\<open>int\<close> values are modelled as \<^typ>\<open>int\<close>: no claim about this file depends on
  overflow.
\<close>

type_synonym address = int

definition NULL :: address where
  "NULL = 0"

text \<open>
  The array descriptor \<^verbatim>\<open>F90_Desc\<close>. Its declaration is not among the sources; the
  fields are the ones the code reads through the accessor macros, and each field carries
  the name of its accessor.
\<close>

record desc =
  F90_TAG_G :: int
  F90_RANK_G :: int
  F90_GSIZE_G :: int
  F90_KIND_G :: int
  F90_LEN_G :: int
  DIST_SCOFF_G :: int

text \<open>The replication descriptor; the code reads only its \<^verbatim>\<open>ndim\<close>.\<close>

record repl_t =
  ndim :: int

text \<open>
  What a participant does to the outside, in order: every call of an external routine is
  one event carrying the call's arguments. The callback's event also carries the status it
  returned. The uses of the two ownership macros are recorded as well, with the cursor
  \<^verbatim>\<open>pc\<close> that \<^verbatim>\<open>__fort_next_owner\<close> is handed.
\<close>

datatype event =
    LocalAddress address "int list" address
  | Getgbuf int address
  | F90ioRw int int int address int int
  | Owner "int list" int
  | NextOwner "int list" int int
  | Rsendl int address int int int int
  | Rrecvl int address int int int int
  | Rbcstl int address int int int int
  | DescribeReplication

text \<open>
  The I/O callback \<^verbatim>\<open>f90io_rw(kind, cnt, stride, adr, len)\<close> returns a status and
  changes the state of the I/O system, which is kept abstract as \<^typ>\<open>'w\<close>.
\<close>

type_synonym 'w callback = "'w \<Rightarrow> int \<Rightarrow> int \<Rightarrow> int \<Rightarrow> address \<Rightarrow> int \<Rightarrow> int \<times> 'w"

text \<open>\<^verbatim>\<open>z.fio_rw\<close> is a pointer to one of the two per-run transfer routines.\<close>

datatype fio = IO_READ | IO_WRITE

text \<open>
  The transfer request \<^verbatim>\<open>fio_parm\<close>, with the fields the code uses. Two more
  fields hold what the C program keeps outside the struct: \<open>trace\<close>, the events of this
  participant so far, and \<open>world\<close>, the state of the I/O system.
\<close>

record 'w fio_parm =
  ab :: address
  ac :: desc
  f90io_rw :: "'w callback"
  fio_rw :: fio
  cnt :: int
  str :: int
  index :: "int list"
  stat :: int
  repl :: repl_t
  trace :: "event list"
  world :: 'w

text \<open>
  What the headers and the rest of the runtime supply to one participant: the macros
  \<^verbatim>\<open>LOCAL_MODE\<close>, \<^verbatim>\<open>GET_DIST_LCPU\<close>, \<^verbatim>\<open>GET_DIST_IOPROC\<close>, \<^verbatim>\<open>__DESC\<close>,
  \<^verbatim>\<open>TYPEKIND\<close> and \<^verbatim>\<open>GET_DIST_SIZE_OF\<close>, the routines
  \<^verbatim>\<open>__fort_local_address\<close>, \<^verbatim>\<open>__fort_getgbuf\<close> and
  \<^verbatim>\<open>__fort_describe_replication\<close>, the runs that \<^verbatim>\<open>__fortio_loop\<close> walks through,
  and the uninitialised contents of the cursor array \<^verbatim>\<open>pc[MAXDIMS]\<close>. None of them is
  defined in the sources, so each is a parameter.
\<close>

record env =
  LOCAL_MODE :: bool
  GET_DIST_LCPU :: int
  GET_DIST_IOPROC :: int
  DESC :: int
  TYPEKIND :: "desc \<Rightarrow> int"
  GET_DIST_SIZE_OF :: "int \<Rightarrow> int"
  fort_local_address :: "address \<Rightarrow> desc \<Rightarrow> int list \<Rightarrow> address"
  fort_getgbuf :: "int \<Rightarrow> address"
  fort_describe_replication :: "desc \<Rightarrow> repl_t"
  fortio_runs :: "desc \<Rightarrow> int \<Rightarrow> (int \<times> int \<times> int list) list"
  pc_uninit :: "int list"

subsection \<open>The macros of descRW.c\<close>

text \<open>
  \<^verbatim>\<open>#define __fort_owner(a, b) 0\<close>,
  \<^verbatim>\<open>#define __fort_next_owner(a, b, c, d) -1\<close> and
  \<^verbatim>\<open>#define __fortio_stat_bcst(a) (*(a))\<close>.
\<close>

definition fort_owner :: "desc \<Rightarrow> int list \<Rightarrow> int" where
  "fort_owner a b = 0"

definition fort_next_owner :: "desc \<Rightarrow> repl_t \<Rightarrow> int list \<Rightarrow> int \<Rightarrow> int" where
  "fort_next_owner a b c d = - 1"

definition fortio_stat_bcst :: "'w fio_parm \<Rightarrow> int" where
  "fortio_stat_bcst z = stat z"

subsection \<open>Calls of external routines\<close>

definition emit :: "event \<Rightarrow> 'w fio_parm \<Rightarrow> 'w fio_parm" where
  "emit ev z = z\<lparr>trace := trace z @ [ev]\<rparr>"

text \<open>
  One call of the callback \<open>f\<close>: the I/O system moves on, the call is recorded, and
  the caller gets the returned status.
\<close>

definition call_f90io_rw ::
  "'w callback \<Rightarrow> 'w fio_parm \<Rightarrow> int \<Rightarrow> int \<Rightarrow> int \<Rightarrow> address \<Rightarrow> int \<Rightarrow> int \<times> 'w fio_parm" where
  "call_f90io_rw f z k c s a l =
     (let (r, w) = f (world z) k c s a l
      in (r, emit (F90ioRw k c s a l r) (z\<lparr>world := w\<rparr>)))"

subsection \<open>\<^verbatim>\<open>__io_read\<close>\<close>

text \<open>\<^verbatim>\<open>for (i = z->repl.ndim; --i >= 0;) pc[i] = 0;\<close>\<close>

function zero_pc :: "int \<Rightarrow> int list \<Rightarrow> int list" where
  "zero_pc i pc = (let i' = i - 1 in if i' \<ge> 0 then zero_pc i' (pc[nat i' := 0]) else pc)"
  by pat_completeness auto
termination
  by (relation "measure (\<lambda>(i, pc). nat i)") auto

text \<open>
  \<^verbatim>\<open>while (owner >= 0) { if (owner != GET_DIST_LCPU) __fort_rsendl(...);
  owner = __fort_next_owner(ac, &z->repl, pc, owner); }\<close>
\<close>

function send_owners ::
  "env \<Rightarrow> address \<Rightarrow> int \<Rightarrow> int list \<Rightarrow> int \<Rightarrow> 'w fio_parm \<Rightarrow> 'w fio_parm" where
  "send_owners e adr str' pc owner z =
     (if owner \<ge> 0 then
        (let z1 = (if owner \<noteq> GET_DIST_LCPU e
                   then emit (Rsendl owner adr (cnt z) str' (F90_KIND_G (ac z)) (F90_LEN_G (ac z))) z
                   else z);
             owner' = fort_next_owner (ac z1) (repl z1) pc owner
         in send_owners e adr str' pc owner' (emit (NextOwner pc owner owner') z1))
      else z)"
  by pat_completeness auto
termination
  by (relation "measure (\<lambda>(e, adr, str', pc, owner, z). if owner \<ge> 0 then 1 else 0)")
     (auto simp: fort_next_owner_def)

definition io_read :: "env \<Rightarrow> 'w fio_parm \<Rightarrow> 'w fio_parm" where
  "io_read e z =
     (let adr = fort_local_address e (ab z) (ac z) (index z);
          z = emit (LocalAddress (ab z) (index z) adr) z;
          str' = str z
      in if LOCAL_MODE e then
           (if stat z = 0 then
              (let (r, z) = call_f90io_rw (f90io_rw z) z (F90_KIND_G (ac z)) (cnt z)
                              (str z * F90_LEN_G (ac z)) adr (F90_LEN_G (ac z))
               in z\<lparr>stat := r\<rparr>)
            else z)
         else
           (let ioproc = GET_DIST_IOPROC e;
                buf = fort_getgbuf e (cnt z * F90_LEN_G (ac z));
                z = emit (Getgbuf (cnt z * F90_LEN_G (ac z)) buf) z
            in if GET_DIST_LCPU e = ioproc then
                 (let (adr, str') = (if adr = NULL then (buf, 1) else (adr, str'));
                      z = (if stat z = 0 then
                             (let (r, z) = call_f90io_rw (f90io_rw z) z (F90_KIND_G (ac z)) (cnt z)
                                             (str' * F90_LEN_G (ac z)) adr (F90_LEN_G (ac z))
                              in z\<lparr>stat := r\<rparr>)
                           else z);
                      owner = fort_owner (ac z) (index z);
                      z = emit (Owner (index z) owner) z;
                      pc = zero_pc (ndim (repl z)) (pc_uninit e)
                  in send_owners e adr str' pc owner z)
               else if adr \<noteq> NULL then
                 emit (Rrecvl ioproc adr (cnt z) str' (F90_KIND_G (ac z)) (F90_LEN_G (ac z))) z
               else z))"

subsection \<open>\<^verbatim>\<open>__io_write\<close>\<close>

definition io_write :: "env \<Rightarrow> 'w fio_parm \<Rightarrow> 'w fio_parm" where
  "io_write e z =
     (let adr = fort_local_address e (ab z) (ac z) (index z);
          z = emit (LocalAddress (ab z) (index z) adr) z;
          str' = str z
      in if stat z = 0 then
           (let (r, z) = call_f90io_rw (f90io_rw z) z (F90_KIND_G (ac z)) (cnt z)
                           (str' * F90_LEN_G (ac z)) adr (F90_LEN_G (ac z))
            in z\<lparr>stat := r\<rparr>)
         else z)"

subsection \<open>\<^verbatim>\<open>__fortio_loop\<close> and \<^verbatim>\<open>__fortio_main\<close>\<close>

text \<open>\<^verbatim>\<open>z->fio_rw(z)\<close>: the call through the function pointer.\<close>

definition call_fio_rw :: "env \<Rightarrow> 'w fio_parm \<Rightarrow> 'w fio_parm" where
  "call_fio_rw e z = (case fio_rw z of IO_READ \<Rightarrow> io_read e z | IO_WRITE \<Rightarrow> io_write e z)"

text \<open>
  Modelled from the spec: the Run Iterator \<^verbatim>\<open>__fortio_loop\<close>, which is declared but not
  defined in the sources. It "enumerates the full index space as a sequence of contiguous
  runs (count, stride)" plus a starting index tuple, and "repeatedly invokes the Per-Run
  Transfer": for each run in turn it stores the run in \<^verbatim>\<open>z->cnt\<close>, \<^verbatim>\<open>z->str\<close> and
  \<^verbatim>\<open>z->index\<close> and calls \<^verbatim>\<open>z->fio_rw(z)\<close>. Which runs there are is the parameter
  \<open>fortio_runs\<close>.
\<close>

fun fortio_loop_runs :: "env \<Rightarrow> 'w fio_parm \<Rightarrow> (int \<times> int \<times> int list) list \<Rightarrow> 'w fio_parm" where
  "fortio_loop_runs e z [] = z"
| "fortio_loop_runs e z ((c, s, i) # rs) =
     fortio_loop_runs e (call_fio_rw e (z\<lparr>cnt := c, str := s, index := i\<rparr>)) rs"

definition fortio_loop :: "env \<Rightarrow> 'w fio_parm \<Rightarrow> int \<Rightarrow> 'w fio_parm" where
  "fortio_loop e z dim = fortio_loop_runs e z (fortio_runs e (ac z) dim)"

text \<open>
  \<^verbatim>\<open>__fortio_main(ab, ac, rw, f90io_rw)\<close>. The struct \<^verbatim>\<open>z\<close> is a local variable that
  starts uninitialised: \<open>zu\<close> is what the stack holds, and \<open>w\<close> is the state of the I/O
  system at the call. The result is the returned status together with the final
  \<^verbatim>\<open>z\<close>, whose \<open>trace\<close> and \<open>world\<close> are what the call did. The code under
  \<^verbatim>\<open>#if defined(DEBUG)\<close> is not part of the model.
\<close>

definition fortio_main ::
  "env \<Rightarrow> 'w fio_parm \<Rightarrow> address \<Rightarrow> desc \<Rightarrow> int \<Rightarrow> 'w callback \<Rightarrow> 'w \<Rightarrow> int \<times> 'w fio_parm" where
  "fortio_main e zu ab' ac' rw f w =
     (let z = zu\<lparr>stat := 0, trace := [], world := w\<rparr>
      in if F90_TAG_G ac' \<noteq> DESC e then
           (let kind = TYPEKIND e ac';
                ioproc = GET_DIST_IOPROC e;
                size_of_kind = GET_DIST_SIZE_OF e kind;
                z = (if LOCAL_MODE e \<or> GET_DIST_LCPU e = ioproc then
                       (let (r, z) = call_f90io_rw f z kind 1 1 ab' size_of_kind
                        in z\<lparr>stat := r\<rparr>)
                     else z);
                z = (if rw = 0 \<and> \<not> LOCAL_MODE e
                     then emit (Rbcstl ioproc ab' 1 1 kind size_of_kind) z
                     else z)
            in (fortio_stat_bcst z, z))
         else if F90_GSIZE_G ac' \<le> 0 then (0, z)
         else
           (let z = z\<lparr>ab := ab' + DIST_SCOFF_G ac' * F90_LEN_G ac'\<rparr>;
                z = z\<lparr>ac := ac'\<rparr>;
                z = z\<lparr>f90io_rw := f\<rparr>;
                z = z\<lparr>fio_rw := (if rw \<noteq> 0 then IO_WRITE else IO_READ)\<rparr>;
                z = (if rw = 0 \<and> \<not> LOCAL_MODE e
                     then emit DescribeReplication (z\<lparr>repl := fort_describe_replication e ac'\<rparr>)
                     else z);
                z = (if F90_RANK_G ac' > 0 then fortio_loop e z (F90_RANK_G ac')
                     else call_fio_rw e (z\<lparr>cnt := 1, str := 1\<rparr>))
            in (fortio_stat_bcst z, z)))"

subsection \<open>Observations on traces\<close>

text \<open>The statuses the callback returned, in the order of the calls.\<close>

fun rw_result :: "event \<Rightarrow> int list" where
  "rw_result (F90ioRw k c s a l r) = [r]"
| "rw_result _ = []"

definition rw_results :: "event list \<Rightarrow> int list" where
  "rw_results tr = concat (map rw_result tr)"

text \<open>The events that are calls of the callback, and those that are transport operations.\<close>

fun is_callback :: "event \<Rightarrow> bool" where
  "is_callback (F90ioRw k c s a l r) = True"
| "is_callback _ = False"

fun is_transport :: "event \<Rightarrow> bool" where
  "is_transport (Rsendl p a c s k l) = True"
| "is_transport (Rrecvl p a c s k l) = True"
| "is_transport (Rbcstl p a c s k l) = True"
| "is_transport _ = False"

text \<open>Whether a call of the callback was handed a stride equal to the element length.\<close>

fun stride_eq_len :: "event \<Rightarrow> bool" where
  "stride_eq_len (F90ioRw k c s a l r) = (s = l)"
| "stride_eq_len _ = True"

text \<open>
  The status is sticky when the callback's results are a run of zeros followed by nothing
  (and the status is 0) or by exactly one nonzero result (and that is the status): the
  first failure is kept, and the callback is not called again after it.
\<close>

definition sticky_status :: "int \<Rightarrow> event list \<Rightarrow> bool" where
  "sticky_status st tr \<longleftrightarrow>
     dropWhile (\<lambda>r. r = 0) (rw_results tr) = (if st = 0 then [] else [st])"

text \<open>
  The owners of a run, as the loop of \<^verbatim>\<open>__io_read\<close> enumerates them: the values that
  \<^verbatim>\<open>owner\<close> takes at the loop's test while they are not negative.
\<close>

function owner_walk :: "desc \<Rightarrow> repl_t \<Rightarrow> int list \<Rightarrow> int \<Rightarrow> int list" where
  "owner_walk a r pc owner =
     (if owner \<ge> 0 then owner # owner_walk a r pc (fort_next_owner a r pc owner) else [])"
  by pat_completeness auto
termination
  by (relation "measure (\<lambda>(a, r, pc, owner). if owner \<ge> 0 then 1 else 0)")
     (auto simp: fort_next_owner_def)

text \<open>What the loop does for one owner: the send, unless the owner is this participant, and the step to the next owner.\<close>

definition fan_out ::
  "env \<Rightarrow> desc \<Rightarrow> repl_t \<Rightarrow> int \<Rightarrow> address \<Rightarrow> int \<Rightarrow> int list \<Rightarrow> int \<Rightarrow> event list" where
  "fan_out e a r c adr s pc owner =
     (if owner \<noteq> GET_DIST_LCPU e
      then [Rsendl owner adr c s (F90_KIND_G a) (F90_LEN_G a)] else [])
     @ [NextOwner pc owner (fort_next_owner a r pc owner)]"

text \<open>
  The values the coordinator's branch of \<^verbatim>\<open>__io_read\<close> works with: the zeroed cursor,
  the owners it walks through, and the address and stride in force after the redirection
  to the scratch buffer.
\<close>

definition run_pc :: "env \<Rightarrow> 'w fio_parm \<Rightarrow> int list" where
  "run_pc e z = zero_pc (ndim (repl z)) (pc_uninit e)"

definition run_owners :: "env \<Rightarrow> 'w fio_parm \<Rightarrow> int list" where
  "run_owners e z = owner_walk (ac z) (repl z) (run_pc e z) (fort_owner (ac z) (index z))"

definition send_adr :: "env \<Rightarrow> 'w fio_parm \<Rightarrow> address" where
  "send_adr e z =
     (if fort_local_address e (ab z) (ac z) (index z) = NULL
      then fort_getgbuf e (cnt z * F90_LEN_G (ac z))
      else fort_local_address e (ab z) (ac z) (index z))"

definition send_str :: "env \<Rightarrow> 'w fio_parm \<Rightarrow> int" where
  "send_str e z = (if fort_local_address e (ab z) (ac z) (index z) = NULL then 1 else str z)"

subsection \<open>A concrete configuration\<close>

text \<open>
  Two participants, 0 and 1, of which 1 is the I/O coordinator. The array has six elements
  of four bytes, all held by participant 0, and is walked in three runs of two. The callback
  counts its calls in the state of the I/O system and fails with status 7 on its second
  call.
\<close>

definition ex_desc :: desc where
  "ex_desc = \<lparr>F90_TAG_G = 35, F90_RANK_G = 1, F90_GSIZE_G = 6, F90_KIND_G = 25, F90_LEN_G = 4,
     DIST_SCOFF_G = 0\<rparr>"

definition ex_env :: "bool \<Rightarrow> int \<Rightarrow> env" where
  "ex_env lm cpu = \<lparr>LOCAL_MODE = lm, GET_DIST_LCPU = cpu, GET_DIST_IOPROC = 1, DESC = 35,
     TYPEKIND = (\<lambda>d. \<bar>F90_TAG_G d\<bar>), GET_DIST_SIZE_OF = (\<lambda>k. 4),
     fort_local_address = (\<lambda>a d i. if cpu = 0 then a + 4 * hd i else NULL),
     fort_getgbuf = (\<lambda>n. 9000),
     fort_describe_replication = (\<lambda>d. \<lparr>ndim = 2\<rparr>),
     fortio_runs = (\<lambda>d r. [(2, 1, [0]), (2, 1, [2]), (2, 1, [4])]),
     pc_uninit = [5, 5, 5]\<rparr>"

definition ex_cb :: "int callback" where
  "ex_cb w k c s a l = (if w = 1 then 7 else 0, w + 1)"

definition ex_zu :: "int fio_parm" where
  "ex_zu = \<lparr>ab = 0, ac = ex_desc, f90io_rw = ex_cb, fio_rw = IO_READ, cnt = 0, str = 0, index = [],
     stat = 99, repl = \<lparr>ndim = 0\<rparr>, trace = [], world = 0\<rparr>"

text \<open>A transfer request for the second run, with recorded status \<open>st\<close>.\<close>

definition ex_z :: "int \<Rightarrow> int fio_parm" where
  "ex_z st = \<lparr>ab = 1000, ac = ex_desc, f90io_rw = ex_cb, fio_rw = IO_READ, cnt = 2, str = 1,
     index = [2], stat = st, repl = \<lparr>ndim = 2\<rparr>, trace = [], world = 1\<rparr>"

definition ex_zw :: "int \<Rightarrow> int fio_parm" where
  "ex_zw st = (ex_z st)\<lparr>fio_rw := IO_WRITE\<rparr>"

text \<open>A scalar of kind 25: its tag is not \<^verbatim>\<open>__DESC\<close>.\<close>

definition ex_scalar :: desc where
  "ex_scalar = ex_desc\<lparr>F90_TAG_G := 25\<rparr>"

text \<open>
  The same participants when every one of them holds the whole array in its own memory, so
  that each has a local address for every run.
\<close>

definition ex_env_held :: "int \<Rightarrow> env" where
  "ex_env_held cpu = (ex_env False cpu)\<lparr>fort_local_address := (\<lambda>a d i. a + 4 * hd i)\<rparr>"

section \<open>Fast sets of small nonnegative integers (flang2exe/fastset.h)\<close>

subsection \<open>Data model\<close>

text \<open>
  \<^verbatim>\<open>struct fastset { unsigned members, limit, *member, *index; }\<close>. An \<^verbatim>\<open>unsigned\<close> is a
  32-bit word. Each of the two pointers is modelled by the array it points to, a list with one
  entry per allocated slot; the null pointer is the array with no slot. The contents of the
  slots are arbitrary words: nothing is assumed to be zero.
\<close>

type_synonym u32 = "32 word"

record fastset =
  members :: u32
  limit :: u32
  member_arr :: "u32 list"
  index_arr :: "u32 list"

text \<open>
  Reading and writing a slot. The subscript is a C integer; a subscript outside the array is
  undefined behaviour in C, and \<open>None\<close> here.
\<close>

definition array_get :: "u32 list \<Rightarrow> int \<Rightarrow> u32 option" where
  "array_get a i = (if 0 \<le> i \<and> i < int (length a) then Some (a ! nat i) else None)"

definition array_set :: "u32 list \<Rightarrow> int \<Rightarrow> u32 \<Rightarrow> u32 list option" where
  "array_set a i v = (if 0 \<le> i \<and> i < int (length a) then Some (a[nat i := v]) else None)"

subsection \<open>The operations\<close>

text \<open>
  An \<^verbatim>\<open>int\<close> argument \<open>x\<close> is given by its 32 bits: \<^verbatim>\<open>(unsigned)x\<close> is the word itself,
  and as a subscript \<^verbatim>\<open>set->index[x]\<close> it counts as the signed value \<open>sint x\<close>. An operation
  returns \<open>None\<close> when it reads or writes outside an array.
\<close>

definition fastset_init :: "fastset \<Rightarrow> fastset" where
  "fastset_init s = s\<lparr>member_arr := [], index_arr := [], members := 0, limit := 0\<rparr>"

definition fastset_vacate :: "fastset \<Rightarrow> fastset" where
  "fastset_vacate s = s\<lparr>members := 0\<rparr>"

definition fastset_pop :: "fastset \<Rightarrow> (u32 \<times> fastset) option" where
  "fastset_pop s =
     (if members s = 0 then Some (- 1, s)
      else (let n = members s - 1
            in case array_get (member_arr s) (uint n) of
                 None \<Rightarrow> None
               | Some v \<Rightarrow> Some (v, s\<lparr>members := n\<rparr>)))"

definition fastset_contains :: "fastset \<Rightarrow> u32 \<Rightarrow> bool option" where
  "fastset_contains s x =
     (if x < limit s then
        (case array_get (index_arr s) (sint x) of
           None \<Rightarrow> None
         | Some idx \<Rightarrow>
             if idx < members s then
               (case array_get (member_arr s) (uint idx) of
                  None \<Rightarrow> None
                | Some m \<Rightarrow> Some (m = x))
             else Some False)
      else Some False)"

text \<open>
  Modelled from the spec: \<^verbatim>\<open>fastset_resize\<close>, which is declared in fastset.h and defined
  outside the sources. It "grows the backing capacity (by reallocation with geometric or
  sufficient growth, preserving existing members) if x exceeds the current bound". Here a
  hint above the limit makes the limit the larger of the hint and a capacity \<open>new_limit\<close>
  of the allocator's choice, and extends both arrays to that many slots; the old slots keep
  their contents and the new ones hold whatever the allocator left there
  (\<open>fresh_member\<close>, \<open>fresh_index\<close>). A hint within the limit changes nothing.
\<close>

record alloc =
  new_limit :: u32
  fresh_member :: "nat \<Rightarrow> u32"
  fresh_index :: "nat \<Rightarrow> u32"

definition fastset_resize :: "alloc \<Rightarrow> fastset \<Rightarrow> u32 \<Rightarrow> fastset" where
  "fastset_resize a s limit_hint =
     (if limit_hint > limit s then
        (let l = max limit_hint (new_limit a)
         in s\<lparr>limit := l,
              member_arr := member_arr s @ map (fresh_member a) [length (member_arr s) ..< unat l],
              index_arr := index_arr s @ map (fresh_index a) [length (index_arr s) ..< unat l]\<rparr>)
      else s)"

text \<open>\<^verbatim>\<open>set->member[set->index[x] = set->members++] = x;\<close>\<close>

definition fastset_store :: "fastset \<Rightarrow> u32 \<Rightarrow> fastset option" where
  "fastset_store s x =
     (let m = members s
      in case array_set (index_arr s) (uint x) m of
           None \<Rightarrow> None
         | Some ix \<Rightarrow>
             (case array_set (member_arr s) (uint m) x of
                None \<Rightarrow> None
              | Some mb \<Rightarrow> Some (s\<lparr>members := m + 1, index_arr := ix, member_arr := mb\<rparr>)))"

definition fastset_add :: "alloc \<Rightarrow> fastset \<Rightarrow> u32 \<Rightarrow> fastset option" where
  "fastset_add a s x =
     (if x \<ge> limit s then fastset_store (fastset_resize a s (x + 1)) x
      else
        (case array_get (index_arr s) (uint x) of
           None \<Rightarrow> None
         | Some idx \<Rightarrow>
             if idx < members s then
               (case array_get (member_arr s) (uint idx) of
                  None \<Rightarrow> None
                | Some m \<Rightarrow> if m = x then Some s else fastset_store s x)
             else fastset_store s x))"

definition fastset_remove :: "fastset \<Rightarrow> u32 \<Rightarrow> fastset option" where
  "fastset_remove s x =
     (if x < limit s then
        (case array_get (index_arr s) (sint x) of
           None \<Rightarrow> None
         | Some idx \<Rightarrow>
             if idx < members s then
               (case array_get (member_arr s) (uint idx) of
                  None \<Rightarrow> None
                | Some m \<Rightarrow>
                    if m = x then
                      (let n = members s - 1
                       in case array_get (member_arr s) (uint n) of
                            None \<Rightarrow> None
                          | Some last' \<Rightarrow>
                              (case array_set (index_arr s) (uint last') idx of
                                 None \<Rightarrow> None
                               | Some ix \<Rightarrow>
                                   (case array_set (member_arr s) (uint idx) last' of
                                      None \<Rightarrow> None
                                    | Some mb \<Rightarrow>
                                        Some (s\<lparr>members := n, index_arr := ix, member_arr := mb\<rparr>))))
                    else Some s)
             else Some s)
      else Some s)"

subsection \<open>The representation invariant\<close>

text \<open>The members of a set: the leading \<^verbatim>\<open>set->members\<close> entries of \<^verbatim>\<open>set->member[]\<close>.\<close>

definition elems :: "fastset \<Rightarrow> u32 list" where
  "elems s = take (unat (members s)) (member_arr s)"

text \<open>
  The invariant as the header states it: \<^verbatim>\<open>set->member[]\<close> "contains the distinct elements
  of the set in arbitrary order in its leading set->members positions", and for each element
  \<open>x\<close> both \<^verbatim>\<open>0 <= set->index[x] < set->members\<close> and
  \<^verbatim>\<open>set->member[set->index[x]] == x\<close>. Both arrays have \<^verbatim>\<open>set->limit\<close> slots.
\<close>

definition fastset_inv :: "fastset \<Rightarrow> bool" where
  "fastset_inv s \<longleftrightarrow>
     length (member_arr s) = unat (limit s)
   \<and> length (index_arr s) = unat (limit s)
   \<and> members s \<le> limit s
   \<and> distinct (elems s)
   \<and> (\<forall>x \<in> set (elems s).
         x < limit s
       \<and> index_arr s ! unat x < members s
       \<and> member_arr s ! unat (index_arr s ! unat x) = x)"

text \<open>
  The two conditions on members and non-members: for a member \<open>x\<close> the index array gives a
  position below \<^verbatim>\<open>set->members\<close> that holds \<open>x\<close>; for any other value, either it is not
  below the limit, or its index entry is not below \<^verbatim>\<open>set->members\<close>, or the member array
  holds something else there.
\<close>

definition rep_invariant :: "fastset \<Rightarrow> bool" where
  "rep_invariant s \<longleftrightarrow>
     (\<forall>x \<in> set (elems s).
        x < limit s \<and> index_arr s ! unat x < members s
      \<and> member_arr s ! unat (index_arr s ! unat x) = x)
   \<and> (\<forall>x. x \<notin> set (elems s) \<longrightarrow>
          x \<ge> limit s \<or> index_arr s ! unat x \<ge> members s
        \<or> member_arr s ! unat (index_arr s ! unat x) \<noteq> x)"

text \<open>The sets that the operations build, starting from \<^verbatim>\<open>fastset_init\<close> on any memory.\<close>

inductive fastset_reachable :: "fastset \<Rightarrow> bool" where
  init: "fastset_reachable (fastset_init s)"
| vacate: "fastset_reachable s \<Longrightarrow> fastset_reachable (fastset_vacate s)"
| add: "fastset_reachable s \<Longrightarrow> fastset_add a s x = Some s' \<Longrightarrow> fastset_reachable s'"
| remove: "fastset_reachable s \<Longrightarrow> fastset_remove s x = Some s' \<Longrightarrow> fastset_reachable s'"
| pop: "fastset_reachable s \<Longrightarrow> fastset_pop s = Some (v, s') \<Longrightarrow> fastset_reachable s'"

subsection \<open>A concrete set\<close>

text \<open>
  An allocator that hands out at least four slots, filled with 7 in the member array and 0 in
  the index array; leftover memory to initialise; and the set \<open>{3, 1}\<close> built by adding 3
  and then 1. In it, index slot 0 holds the stale value 0, a live position, though 0 is not a
  member.
\<close>

definition ex_alloc :: alloc where
  "ex_alloc = \<lparr>new_limit = 4, fresh_member = (\<lambda>i. 7), fresh_index = (\<lambda>i. 0)\<rparr>"

definition ex_garbage :: fastset where
  "ex_garbage = \<lparr>members = 9, limit = 2, member_arr = [5], index_arr = [6, 6, 6]\<rparr>"

definition ex_set :: fastset where
  "ex_set = \<lparr>members = 2, limit = 4, member_arr = [3, 1, 7, 7], index_arr = [0, 1, 0, 0]\<rparr>"

section \<open>Lemmas on the per-run transfers\<close>

declare send_owners.simps [simp del] owner_walk.simps [simp del] zero_pc.simps [simp del]

lemma emit_simps [simp]:
  "trace (emit ev z) = trace z @ [ev]" "stat (emit ev z) = stat z" "world (emit ev z) = world z"
  "ac (emit ev z) = ac z" "ab (emit ev z) = ab z" "cnt (emit ev z) = cnt z" "str (emit ev z) = str z"
  "index (emit ev z) = index z" "repl (emit ev z) = repl z" "fio_rw (emit ev z) = fio_rw z"
  "f90io_rw (emit ev z) = f90io_rw z"
  by (simp_all add: emit_def)

lemma send_owners_eq:
  "send_owners e adr s pc owner z =
     z\<lparr>trace := trace z @ concat (map (fan_out e (ac z) (repl z) (cnt z) adr s pc) (owner_walk (ac z) (repl z) pc owner))\<rparr>"
proof (induction e adr s pc owner z rule: send_owners.induct)
  case (1 e adr s pc owner z)
  show ?case
  proof (cases "owner \<ge> 0")
    case False
    then show ?thesis
      by (subst send_owners.simps, subst owner_walk.simps) simp
  next
    case True
    note IH = 1 [OF True refl refl]
    show ?thesis
    proof (cases "owner = GET_DIST_LCPU e")
      case same: True
      show ?thesis
        apply (subst send_owners.simps, subst owner_walk.simps)
        using True same IH
        apply (simp add: Let_def)
        apply (simp add: fan_out_def emit_def)
        done
    next
      case other: False
      show ?thesis
        apply (subst send_owners.simps, subst owner_walk.simps)
        using True other IH
        apply (simp add: Let_def)
        apply (simp add: fan_out_def emit_def)
        done
    qed
  qed
qed

lemma zero_pc_length [simp]: "length (zero_pc i pc) = length pc"
  by (induction i pc rule: zero_pc.induct) (subst zero_pc.simps, simp add: Let_def)

lemma zero_pc_nth:
  "j < length pc \<Longrightarrow> zero_pc i pc ! j = (if int j < i then 0 else pc ! j)"
proof (induction i pc arbitrary: j rule: zero_pc.induct)
  case (1 i pc)
  show ?case
  proof (cases "i - 1 \<ge> 0")
    case True
    with 1 show ?thesis
      by (subst zero_pc.simps) (auto simp: Let_def nth_list_update)
  next
    case False
    then show ?thesis by (subst zero_pc.simps) (auto simp: Let_def)
  qed
qed

lemma owner_walk_macro: "owner_walk a r pc (fort_owner a i) = [0]"
  by (subst owner_walk.simps, subst owner_walk.simps) (simp add: fort_owner_def fort_next_owner_def)

lemma rw_results_simps [simp]:
  "rw_results [] = []"
  "rw_results (tr @ tr') = rw_results tr @ rw_results tr'"
  "rw_results (ev # tr) = rw_result ev @ rw_results tr"
  by (simp_all add: rw_results_def)

lemma rw_results_fan_out [simp]: "rw_results (concat (map (fan_out e a r c adr s pc) os)) = []"
  by (induction os) (simp_all add: fan_out_def)

lemma call_f90io_rw_eq:
  "call_f90io_rw f z k c s a l =
     (fst (f (world z) k c s a l),
      z\<lparr>world := snd (f (world z) k c s a l),
         trace := trace z @ [F90ioRw k c s a l (fst (f (world z) k c s a l))]\<rparr>)"
  by (simp add: call_f90io_rw_def emit_def split: prod.split)

text \<open>What one call of the write transfer does.\<close>

lemma io_write_eq:
  "io_write e z =
     (let adr = fort_local_address e (ab z) (ac z) (index z);
          k = F90_KIND_G (ac z); l = F90_LEN_G (ac z);
          r = f90io_rw z (world z) k (cnt z) (str z * l) adr l
      in if stat z = 0
         then z\<lparr>stat := fst r, world := snd r,
                 trace := trace z @ [LocalAddress (ab z) (index z) adr, F90ioRw k (cnt z) (str z * l) adr l (fst r)]\<rparr>
         else z\<lparr>trace := trace z @ [LocalAddress (ab z) (index z) adr]\<rparr>)"
  by (simp add: io_write_def call_f90io_rw_eq Let_def emit_def)

lemma io_read_local_eq:
  assumes "LOCAL_MODE e"
  shows "io_read e z =
     (let adr = fort_local_address e (ab z) (ac z) (index z);
          k = F90_KIND_G (ac z); l = F90_LEN_G (ac z);
          r = f90io_rw z (world z) k (cnt z) (str z * l) adr l
      in if stat z = 0
         then z\<lparr>stat := fst r, world := snd r,
                 trace := trace z @ [LocalAddress (ab z) (index z) adr, F90ioRw k (cnt z) (str z * l) adr l (fst r)]\<rparr>
         else z\<lparr>trace := trace z @ [LocalAddress (ab z) (index z) adr]\<rparr>)"
  using assms by (simp add: io_read_def call_f90io_rw_eq Let_def emit_def)

lemma io_read_other_eq:
  assumes "\<not> LOCAL_MODE e" and "GET_DIST_LCPU e \<noteq> GET_DIST_IOPROC e"
  shows "io_read e z =
     (let adr = fort_local_address e (ab z) (ac z) (index z);
          k = F90_KIND_G (ac z); l = F90_LEN_G (ac z);
          n = cnt z * l
      in z\<lparr>trace := trace z @ [LocalAddress (ab z) (index z) adr, Getgbuf n (fort_getgbuf e n)]
              @ (if adr \<noteq> NULL then [Rrecvl (GET_DIST_IOPROC e) adr (cnt z) (str z) k l] else [])\<rparr>)"
  using assms by (simp add: io_read_def Let_def emit_def)

lemma io_read_ioproc_eq:
  assumes "\<not> LOCAL_MODE e" and "GET_DIST_LCPU e = GET_DIST_IOPROC e"
  shows "io_read e z =
     (let adr0 = fort_local_address e (ab z) (ac z) (index z);
          k = F90_KIND_G (ac z); l = F90_LEN_G (ac z);
          n = cnt z * l;
          buf = fort_getgbuf e n;
          adr = (if adr0 = NULL then buf else adr0);
          s = (if adr0 = NULL then 1 else str z);
          r = f90io_rw z (world z) k (cnt z) (s * l) adr l;
          owner = fort_owner (ac z) (index z);
          pc = zero_pc (ndim (repl z)) (pc_uninit e);
          tail = Owner (index z) owner # concat (map (fan_out e (ac z) (repl z) (cnt z) adr s pc) (owner_walk (ac z) (repl z) pc owner))
      in if stat z = 0
         then z\<lparr>stat := fst r, world := snd r,
                 trace := trace z @ [LocalAddress (ab z) (index z) adr0, Getgbuf n buf, F90ioRw k (cnt z) (s * l) adr l (fst r)] @ tail\<rparr>
         else z\<lparr>trace := trace z @ [LocalAddress (ab z) (index z) adr0, Getgbuf n buf] @ tail\<rparr>)"
  using assms
  by (simp add: io_read_def call_f90io_rw_eq Let_def send_owners_eq emit_def fan_out_def)

lemma transport_fan_out:
  "filter is_transport (concat (map (fan_out e a r c adr s pc) os)) =
     map (\<lambda>q. Rsendl q adr c s (F90_KIND_G a) (F90_LEN_G a)) (filter (\<lambda>q. q \<noteq> GET_DIST_LCPU e) os)"
  by (induction os) (simp_all add: fan_out_def)

lemma sticky_init: "sticky_status 0 []"
  by (simp add: sticky_status_def)

lemma sticky_call:
  assumes "sticky_status 0 tr" and "rw_results tr' = [r]"
  shows "sticky_status r (tr @ tr')"
proof -
  from assms(1) have "\<forall>x\<in>set (rw_results tr). x = 0"
    by (simp add: sticky_status_def)
  then have "dropWhile (\<lambda>r. r = 0) (rw_results tr @ [r]) = dropWhile (\<lambda>r. r = 0) [r]"
    by (simp add: dropWhile_append2)
  then show ?thesis using assms(2) by (simp add: sticky_status_def)
qed

lemma sticky_skip:
  assumes "sticky_status st tr" and "rw_results tr' = []"
  shows "sticky_status st (tr @ tr')"
  using assms by (simp add: sticky_status_def)

text \<open>The fields a per-run transfer leaves alone.\<close>

lemma io_write_frame [simp]:
  "fio_rw (io_write e z) = fio_rw z" "ac (io_write e z) = ac z" "ab (io_write e z) = ab z"
  "f90io_rw (io_write e z) = f90io_rw z" "repl (io_write e z) = repl z"
  by (simp_all add: io_write_eq Let_def)

lemma io_read_frame [simp]:
  "fio_rw (io_read e z) = fio_rw z" "ac (io_read e z) = ac z" "ab (io_read e z) = ab z"
  "f90io_rw (io_read e z) = f90io_rw z" "repl (io_read e z) = repl z"
proof -
  consider "LOCAL_MODE e" | "\<not> LOCAL_MODE e" "GET_DIST_LCPU e = GET_DIST_IOPROC e"
    | "\<not> LOCAL_MODE e" "GET_DIST_LCPU e \<noteq> GET_DIST_IOPROC e" by blast
  then have "fio_rw (io_read e z) = fio_rw z \<and> ac (io_read e z) = ac z \<and> ab (io_read e z) = ab z
      \<and> f90io_rw (io_read e z) = f90io_rw z \<and> repl (io_read e z) = repl z"
    by cases (simp_all add: io_read_local_eq io_read_ioproc_eq io_read_other_eq Let_def)
  then show "fio_rw (io_read e z) = fio_rw z" "ac (io_read e z) = ac z" "ab (io_read e z) = ab z"
    "f90io_rw (io_read e z) = f90io_rw z" "repl (io_read e z) = repl z"
    by simp_all
qed

lemma call_fio_rw_frame [simp]:
  "fio_rw (call_fio_rw e z) = fio_rw z" "ac (call_fio_rw e z) = ac z" "ab (call_fio_rw e z) = ab z"
  "f90io_rw (call_fio_rw e z) = f90io_rw z" "repl (call_fio_rw e z) = repl z"
  by (simp_all add: call_fio_rw_def split: fio.split)

text \<open>The status is sticky: leading successes, then at most one failing call, whose status stays.\<close>

lemma io_write_sticky:
  assumes "sticky_status (stat z) (trace z)"
  shows "sticky_status (stat (io_write e z)) (trace (io_write e z))"
proof (cases "stat z = 0")
  case True
  with assms show ?thesis by (simp add: io_write_eq Let_def sticky_call)
next
  case False
  with assms show ?thesis by (simp add: io_write_eq Let_def sticky_skip)
qed

lemma io_read_sticky:
  assumes "sticky_status (stat z) (trace z)"
  shows "sticky_status (stat (io_read e z)) (trace (io_read e z))"
proof -
  consider (loc) "LOCAL_MODE e" | (iop) "\<not> LOCAL_MODE e" "GET_DIST_LCPU e = GET_DIST_IOPROC e"
    | (oth) "\<not> LOCAL_MODE e" "GET_DIST_LCPU e \<noteq> GET_DIST_IOPROC e" by blast
  then show ?thesis
  proof cases
    case loc
    show ?thesis
    proof (cases "stat z = 0")
      case True
      with assms loc show ?thesis by (simp add: io_read_local_eq Let_def sticky_call)
    next
      case False
      with assms loc show ?thesis by (simp add: io_read_local_eq Let_def sticky_skip)
    qed
  next
    case iop
    show ?thesis
    proof (cases "stat z = 0")
      case True
      with assms iop show ?thesis by (simp add: io_read_ioproc_eq Let_def sticky_call)
    next
      case False
      with assms iop show ?thesis by (simp add: io_read_ioproc_eq Let_def sticky_skip)
    qed
  next
    case oth
    with assms show ?thesis by (simp add: io_read_other_eq Let_def sticky_skip)
  qed
qed

lemma call_fio_rw_sticky:
  assumes "sticky_status (stat z) (trace z)"
  shows "sticky_status (stat (call_fio_rw e z)) (trace (call_fio_rw e z))"
  using io_read_sticky [OF assms] io_write_sticky [OF assms]
  by (simp add: call_fio_rw_def split: fio.split)

lemma fortio_loop_runs_sticky:
  assumes "sticky_status (stat z) (trace z)"
  shows "sticky_status (stat (fortio_loop_runs e z rs)) (trace (fortio_loop_runs e z rs))"
  using assms
proof (induction rs arbitrary: z)
  case Nil
  then show ?case by simp
next
  case (Cons run rs)
  obtain c s i where run: "run = (c, s, i)" by (cases run)
  show ?case
    unfolding run fortio_loop_runs.simps
    by (rule Cons.IH, rule call_fio_rw_sticky) (use Cons.prems in simp)
qed

lemma fortio_main_sticky:
  "sticky_status (fst (fortio_main e zu ab' ac' rw f w)) (trace (snd (fortio_main e zu ab' ac' rw f w)))"
proof -
  consider (scalar) "F90_TAG_G ac' \<noteq> DESC e"
    | (empty) "F90_TAG_G ac' = DESC e" "F90_GSIZE_G ac' \<le> 0"
    | (array) "F90_TAG_G ac' = DESC e" "\<not> F90_GSIZE_G ac' \<le> 0" by blast
  then show ?thesis
  proof cases
    case scalar
    have "sticky_status r ([] @ [F90ioRw k c s a l r])" for k c s a l r
      by (rule sticky_call [OF sticky_init]) simp
    moreover have "sticky_status r (([] @ [F90ioRw k c s a l r]) @ [Rbcstl p a' c' s' k' l'])" for k c s a l r p a' c' s' k' l'
      by (rule sticky_skip, rule sticky_call [OF sticky_init]) simp_all
    moreover have "sticky_status 0 ([] @ [Rbcstl p a' c' s' k' l'])" for p a' c' s' k' l'
      by (rule sticky_skip [OF sticky_init]) simp
    ultimately show ?thesis using scalar
      by (simp add: fortio_main_def call_f90io_rw_eq Let_def fortio_stat_bcst_def emit_def sticky_init)
  next
    case empty
    then show ?thesis by (simp add: fortio_main_def sticky_init)
  next
    case array
    have "sticky_status 0 ([] @ [DescribeReplication])"
      by (rule sticky_skip [OF sticky_init]) simp
    then show ?thesis using array
      by (simp add: fortio_main_def Let_def fortio_stat_bcst_def fortio_loop_def
          fortio_loop_runs_sticky call_fio_rw_sticky emit_def sticky_init)
  qed
qed

lemma callback_fan_out [simp]: "filter is_callback (concat (map (fan_out e a r c adr s pc) os)) = []"
  by (induction os) (simp_all add: fan_out_def)

lemma io_read_ioproc_trace:
  assumes "\<not> LOCAL_MODE e" and "GET_DIST_LCPU e = GET_DIST_IOPROC e"
  shows "trace (io_read e z) =
     trace z @
     [LocalAddress (ab z) (index z) (fort_local_address e (ab z) (ac z) (index z)),
      Getgbuf (cnt z * F90_LEN_G (ac z)) (fort_getgbuf e (cnt z * F90_LEN_G (ac z)))] @
     (if stat z = 0
      then [F90ioRw (F90_KIND_G (ac z)) (cnt z) (send_str e z * F90_LEN_G (ac z)) (send_adr e z)
              (F90_LEN_G (ac z)) (stat (io_read e z))]
      else []) @
     Owner (index z) (fort_owner (ac z) (index z)) #
     concat (map (fan_out e (ac z) (repl z) (cnt z) (send_adr e z) (send_str e z) (run_pc e z))
       (run_owners e z))"
  by (simp add: io_read_ioproc_eq [OF assms] Let_def send_adr_def send_str_def run_pc_def run_owners_def)

lemma io_read_ioproc_skip:
  assumes "\<not> LOCAL_MODE e" and "GET_DIST_LCPU e = GET_DIST_IOPROC e" and "stat z \<noteq> 0"
  shows "stat (io_read e z) = stat z" and "world (io_read e z) = world z"
  using assms(3) by (simp_all add: io_read_ioproc_eq [OF assms(1,2)] Let_def)

lemma fortio_loop_runs_other:
  assumes "\<not> LOCAL_MODE e" and "GET_DIST_LCPU e \<noteq> GET_DIST_IOPROC e" and "fio_rw z = IO_READ"
  shows "stat (fortio_loop_runs e z rs) = stat z
       \<and> world (fortio_loop_runs e z rs) = world z
       \<and> rw_results (trace (fortio_loop_runs e z rs)) = rw_results (trace z)"
  using assms(3)
proof (induction rs arbitrary: z)
  case Nil
  then show ?case by simp
next
  case (Cons run rs)
  obtain c s i where run: "run = (c, s, i)" by (cases run)
  let ?z = "call_fio_rw e (z\<lparr>cnt := c, str := s, index := i\<rparr>)"
  have step: "stat ?z = stat z \<and> world ?z = world z \<and> rw_results (trace ?z) = rw_results (trace z)"
    using Cons.prems assms(1,2) by (simp add: call_fio_rw_def io_read_other_eq Let_def)
  have "fio_rw ?z = IO_READ" using Cons.prems by simp
  from Cons.IH [OF this] step show ?case by (simp add: run)
qed

lemma io_write_transport:
  "filter is_transport (trace (io_write e z)) = filter is_transport (trace z)"
  by (simp add: io_write_eq Let_def)

lemma fortio_loop_runs_write_transport:
  assumes "fio_rw z = IO_WRITE"
  shows "filter is_transport (trace (fortio_loop_runs e z rs)) = filter is_transport (trace z)"
  using assms
proof (induction rs arbitrary: z)
  case Nil
  then show ?case by simp
next
  case (Cons run rs)
  obtain c s i where run: "run = (c, s, i)" by (cases run)
  let ?z = "call_fio_rw e (z\<lparr>cnt := c, str := s, index := i\<rparr>)"
  have step: "filter is_transport (trace ?z) = filter is_transport (trace z)"
    using Cons.prems by (simp add: call_fio_rw_def io_write_transport)
  have "fio_rw ?z = IO_WRITE" using Cons.prems by simp
  from Cons.IH [OF this] step show ?case by (simp add: run)
qed

lemma fortio_loop_runs_write_skip:
  assumes "fio_rw z = IO_WRITE" and "stat z \<noteq> 0"
  shows "stat (fortio_loop_runs e z rs) = stat z
       \<and> world (fortio_loop_runs e z rs) = world z
       \<and> filter is_callback (trace (fortio_loop_runs e z rs)) = filter is_callback (trace z)"
  using assms
proof (induction rs arbitrary: z)
  case Nil
  then show ?case by simp
next
  case (Cons run rs)
  obtain c s i where run: "run = (c, s, i)" by (cases run)
  let ?z = "call_fio_rw e (z\<lparr>cnt := c, str := s, index := i\<rparr>)"
  have step: "stat ?z = stat z \<and> world ?z = world z
      \<and> filter is_callback (trace ?z) = filter is_callback (trace z)"
    using Cons.prems by (simp add: call_fio_rw_def io_write_eq Let_def)
  have "fio_rw ?z = IO_WRITE" using Cons.prems by simp
  moreover have "stat ?z \<noteq> 0" using step Cons.prems by simp
  ultimately show ?case using Cons.IH [of ?z] step by (simp add: run)
qed

lemma fortio_main_write_transport:
  assumes "rw \<noteq> 0"
  shows "filter is_transport (trace (snd (fortio_main e zu ab' ac' rw f w))) = []"
proof -
  consider (scalar) "F90_TAG_G ac' \<noteq> DESC e"
    | (empty) "F90_TAG_G ac' = DESC e" "F90_GSIZE_G ac' \<le> 0"
    | (array) "F90_TAG_G ac' = DESC e" "\<not> F90_GSIZE_G ac' \<le> 0" by blast
  then show ?thesis
  proof cases
    case scalar
    with assms show ?thesis
      by (simp add: fortio_main_def call_f90io_rw_eq Let_def)
  next
    case empty
    then show ?thesis by (simp add: fortio_main_def)
  next
    case array
    with assms show ?thesis
      by (simp add: fortio_main_def Let_def fortio_loop_def call_fio_rw_def
          fortio_loop_runs_write_transport io_write_transport)
  qed
qed

lemma run_owners_macro: "run_owners e z = [0]"
  by (simp add: run_owners_def owner_walk_macro)

section \<open>Properties of the collective entry point\<close>

text \<open>
  C3. A descriptor that denotes an array (its tag is \<^verbatim>\<open>__DESC\<close>) with a global element
  count of zero or less makes \<^verbatim>\<open>__fortio_main\<close> return 0 at once, for a read and for a
  write alike: the trace of the call is empty, so neither the callback, nor an address or
  ownership resolver, nor a send, receive or broadcast was invoked, and the I/O system is
  in the state it was in.
\<close>

theorem fortio_main_zero_size:
  assumes "F90_TAG_G ac' = DESC e" and "F90_GSIZE_G ac' \<le> 0"
  shows "fst (fortio_main e zu ab' ac' rw f w) = 0
       \<and> trace (snd (fortio_main e zu ab' ac' rw f w)) = []
       \<and> world (snd (fortio_main e zu ab' ac' rw f w)) = w"
  using assms by (simp add: fortio_main_def)

theorem fortio_main_zero_size_witness:
  "fst (fortio_main (ex_env False 1) ex_zu 1000 (ex_desc\<lparr>F90_GSIZE_G := 0\<rparr>) 0 ex_cb 0) = 0
   \<and> trace (snd (fortio_main (ex_env False 1) ex_zu 1000 (ex_desc\<lparr>F90_GSIZE_G := 0\<rparr>) 0 ex_cb 0)) = []
   \<and> fst (fortio_main (ex_env False 1) ex_zu 1000 (ex_desc\<lparr>F90_GSIZE_G := - 3\<rparr>) 1 ex_cb 0) = 0
   \<and> trace (snd (fortio_main (ex_env False 1) ex_zu 1000 (ex_desc\<lparr>F90_GSIZE_G := - 3\<rparr>) 1 ex_cb 0)) = []"
proof -
  have tag: "F90_TAG_G (ex_desc\<lparr>F90_GSIZE_G := g\<rparr>) = DESC (ex_env False 1)" for g
    by (simp add: ex_desc_def ex_env_def)
  have le: "F90_GSIZE_G (ex_desc\<lparr>F90_GSIZE_G := 0\<rparr>) \<le> 0" "F90_GSIZE_G (ex_desc\<lparr>F90_GSIZE_G := - 3\<rparr>) \<le> 0"
    by simp_all
  from fortio_main_zero_size [OF tag le(1), of ex_zu 1000 0 ex_cb 0]
    fortio_main_zero_size [OF tag le(2), of ex_zu 1000 1 ex_cb 0]
  show ?thesis by simp
qed

text \<open>
  C1 (as amended). The claim is that after a read in multi-participant mode every
  participant holds the status computed at the I/O coordinator. In this file the status
  broadcast \<^verbatim>\<open>__fortio_stat_bcst\<close> is the macro \<^verbatim>\<open>(*(a))\<close>: it yields the participant's own
  \<^verbatim>\<open>z.stat\<close> and passes nothing between participants. So, for a read outside local mode:
  a participant that is not the coordinator never calls the callback and returns 0, with the
  I/O system untouched; the coordinator returns its own sticky status, that is 0 when every
  call of the callback returned 0, and otherwise the first nonzero status the callback
  returned, after which the callback is not called again.
\<close>

theorem fortio_main_read_status:
  assumes "\<not> LOCAL_MODE e" and "rw = 0"
  shows "(GET_DIST_LCPU e \<noteq> GET_DIST_IOPROC e \<longrightarrow>
            fst (fortio_main e zu ab' ac' rw f w) = 0
          \<and> rw_results (trace (snd (fortio_main e zu ab' ac' rw f w))) = []
          \<and> world (snd (fortio_main e zu ab' ac' rw f w)) = w)
       \<and> (GET_DIST_LCPU e = GET_DIST_IOPROC e \<longrightarrow>
            sticky_status (fst (fortio_main e zu ab' ac' rw f w))
              (trace (snd (fortio_main e zu ab' ac' rw f w))))"
proof (intro conjI impI)
  show "sticky_status (fst (fortio_main e zu ab' ac' rw f w)) (trace (snd (fortio_main e zu ab' ac' rw f w)))"
    by (rule fortio_main_sticky)
next
  assume other: "GET_DIST_LCPU e \<noteq> GET_DIST_IOPROC e"
  let ?R = "fortio_main e zu ab' ac' rw f w"
  have "fst ?R = 0 \<and> rw_results (trace (snd ?R)) = [] \<and> world (snd ?R) = w"
  proof -
    consider (scalar) "F90_TAG_G ac' \<noteq> DESC e"
      | (empty) "F90_TAG_G ac' = DESC e" "F90_GSIZE_G ac' \<le> 0"
      | (array) "F90_TAG_G ac' = DESC e" "\<not> F90_GSIZE_G ac' \<le> 0" by blast
    then show ?thesis
    proof cases
      case scalar
      with assms other show ?thesis
        by (simp add: fortio_main_def Let_def fortio_stat_bcst_def)
    next
      case empty
      then show ?thesis by (simp add: fortio_main_def)
    next
      case array
      let ?z = "emit DescribeReplication
         (zu\<lparr>stat := 0, trace := [], world := w, ab := ab' + DIST_SCOFF_G ac' * F90_LEN_G ac',
             ac := ac', f90io_rw := f, fio_rw := IO_READ, repl := fort_describe_replication e ac'\<rparr>)"
      have rd: "fio_rw ?z = IO_READ" by simp
      have loop: "stat (fortio_loop_runs e ?z rs) = 0 \<and> world (fortio_loop_runs e ?z rs) = w
          \<and> rw_results (trace (fortio_loop_runs e ?z rs)) = []" for rs
        using fortio_loop_runs_other [OF assms(1) other rd, of rs] by simp
      have one: "stat (call_fio_rw e (?z\<lparr>cnt := 1, str := 1\<rparr>)) = 0
          \<and> world (call_fio_rw e (?z\<lparr>cnt := 1, str := 1\<rparr>)) = w
          \<and> rw_results (trace (call_fio_rw e (?z\<lparr>cnt := 1, str := 1\<rparr>))) = []"
        using assms(1) other by (simp add: call_fio_rw_def io_read_other_eq Let_def)
      from array assms loop one show ?thesis
        by (simp add: fortio_main_def Let_def fortio_stat_bcst_def fortio_loop_def)
    qed
  qed
  then show "fst ?R = 0" "rw_results (trace (snd ?R)) = []" "world (snd ?R) = w" by simp_all
qed

theorem fortio_main_read_status_witness:
  "fst (fortio_main (ex_env False 0) ex_zu 1000 ex_desc 0 ex_cb 0) = 0
   \<and> rw_results (trace (snd (fortio_main (ex_env False 0) ex_zu 1000 ex_desc 0 ex_cb 0))) = []
   \<and> world (snd (fortio_main (ex_env False 0) ex_zu 1000 ex_desc 0 ex_cb 0)) = 0
   \<and> sticky_status (fst (fortio_main (ex_env False 1) ex_zu 1000 ex_desc 0 ex_cb 0))
        (trace (snd (fortio_main (ex_env False 1) ex_zu 1000 ex_desc 0 ex_cb 0)))
   \<and> rw_results (trace (snd (fortio_main (ex_env False 1) ex_zu 1000 ex_desc 0 ex_cb 0))) = [0, 7]"
proof -
  have mode: "\<not> LOCAL_MODE (ex_env False cpu)" for cpu
    by (simp add: ex_env_def)
  have other: "GET_DIST_LCPU (ex_env False 0) \<noteq> GET_DIST_IOPROC (ex_env False 0)"
    and coord: "GET_DIST_LCPU (ex_env False 1) = GET_DIST_IOPROC (ex_env False 1)"
    by (simp_all add: ex_env_def)
  have res: "rw_results (trace (snd (fortio_main (ex_env False 1) ex_zu 1000 ex_desc 0 ex_cb 0))) = [0, 7]"
    by code_simp
  from fortio_main_read_status [OF mode refl, of 0 ex_zu 1000 ex_desc ex_cb 0] other
    fortio_main_read_status [OF mode refl, of 1 ex_zu 1000 ex_desc ex_cb 0] coord res
  show ?thesis by simp
qed

text \<open>
  The claim as stated fails in the concrete configuration: the callback fails with status 7
  on the second run at the coordinator (participant 1), which returns 7, while participant 0
  returns 0 from the same collective read.
\<close>

theorem fortio_main_read_status_counterexample:
  "fst (fortio_main (ex_env False 1) ex_zu 1000 ex_desc 0 ex_cb 0) = 7
   \<and> fst (fortio_main (ex_env False 0) ex_zu 1000 ex_desc 0 ex_cb 0) = 0"
  by code_simp

text \<open>
  C2 (as amended). On the read path outside local mode, at the I/O coordinator, a run does
  the following, in this order and nothing else: it resolves the local address and acquires
  the scratch buffer; unless a nonzero status is already recorded, it calls the callback once
  to fill the buffer in force (the local address, or the scratch buffer with stride 1 when
  the local address is null), which gives the new status and state of the I/O system; it
  takes the first owner; it sends the buffer in force to each enumerated owner other than
  itself; and it steps to the next owner with a cursor whose first \<^verbatim>\<open>repl.ndim\<close> entries are
  zero, until the value is negative. With a nonzero status recorded the callback is skipped,
  status and I/O system stay, and the sends are the same. In this file \<^verbatim>\<open>__fort_owner\<close> is
  the macro 0 and \<^verbatim>\<open>__fort_next_owner\<close> the macro -1, so the enumeration is the single
  participant 0: the only send of a run goes to participant 0, and only when the coordinator
  is not participant 0; no other participant is ever sent to. A participant other than the
  coordinator that has a local address for the run still posts its receive from the
  coordinator, so the receive of such a participant other than 0 has no matching send.
\<close>

theorem io_read_fan_out:
  assumes "\<not> LOCAL_MODE e" and "GET_DIST_LCPU e = GET_DIST_IOPROC e"
  shows "trace (io_read e z) =
           trace z @
           [LocalAddress (ab z) (index z) (fort_local_address e (ab z) (ac z) (index z)),
            Getgbuf (cnt z * F90_LEN_G (ac z)) (fort_getgbuf e (cnt z * F90_LEN_G (ac z)))] @
           (if stat z = 0
            then [F90ioRw (F90_KIND_G (ac z)) (cnt z) (send_str e z * F90_LEN_G (ac z)) (send_adr e z)
                    (F90_LEN_G (ac z)) (stat (io_read e z))]
            else []) @
           [Owner (index z) 0] @
           (if GET_DIST_LCPU e \<noteq> 0
            then [Rsendl 0 (send_adr e z) (cnt z) (send_str e z) (F90_KIND_G (ac z)) (F90_LEN_G (ac z))]
            else []) @
           [NextOwner (run_pc e z) 0 (- 1)]
       \<and> (stat z = 0 \<longrightarrow>
             stat (io_read e z) =
               fst (f90io_rw z (world z) (F90_KIND_G (ac z)) (cnt z) (send_str e z * F90_LEN_G (ac z))
                      (send_adr e z) (F90_LEN_G (ac z)))
           \<and> world (io_read e z) =
               snd (f90io_rw z (world z) (F90_KIND_G (ac z)) (cnt z) (send_str e z * F90_LEN_G (ac z))
                      (send_adr e z) (F90_LEN_G (ac z))))
       \<and> (stat z \<noteq> 0 \<longrightarrow> stat (io_read e z) = stat z \<and> world (io_read e z) = world z)
       \<and> filter is_transport (trace (io_read e z)) =
           filter is_transport (trace z) @
           map (\<lambda>q. Rsendl q (send_adr e z) (cnt z) (send_str e z) (F90_KIND_G (ac z)) (F90_LEN_G (ac z)))
             (filter (\<lambda>q. q \<noteq> GET_DIST_LCPU e) (run_owners e z))
       \<and> run_owners e z = [0]
       \<and> (\<forall>j < length (run_pc e z). int j < ndim (repl z) \<longrightarrow> run_pc e z ! j = 0)
       \<and> (\<forall>p a c s k l. p \<noteq> 0 \<longrightarrow>
             Rsendl p a c s k l \<notin> set (drop (length (trace z)) (trace (io_read e z))))
       \<and> (\<not> LOCAL_MODE e' \<and> GET_DIST_LCPU e' \<noteq> GET_DIST_IOPROC e'
           \<and> fort_local_address e' (ab z') (ac z') (index z') \<noteq> NULL \<longrightarrow>
             trace (io_read e' z') =
               trace z' @
               [LocalAddress (ab z') (index z') (fort_local_address e' (ab z') (ac z') (index z')),
                Getgbuf (cnt z' * F90_LEN_G (ac z')) (fort_getgbuf e' (cnt z' * F90_LEN_G (ac z'))),
                Rrecvl (GET_DIST_IOPROC e') (fort_local_address e' (ab z') (ac z') (index z'))
                  (cnt z') (str z') (F90_KIND_G (ac z')) (F90_LEN_G (ac z'))])"
proof -
  note own = run_owners_macro [of e z]
  have tr: "trace (io_read e z) =
           trace z @
           [LocalAddress (ab z) (index z) (fort_local_address e (ab z) (ac z) (index z)),
            Getgbuf (cnt z * F90_LEN_G (ac z)) (fort_getgbuf e (cnt z * F90_LEN_G (ac z)))] @
           (if stat z = 0
            then [F90ioRw (F90_KIND_G (ac z)) (cnt z) (send_str e z * F90_LEN_G (ac z)) (send_adr e z)
                    (F90_LEN_G (ac z)) (stat (io_read e z))]
            else []) @
           [Owner (index z) 0] @
           (if GET_DIST_LCPU e \<noteq> 0
            then [Rsendl 0 (send_adr e z) (cnt z) (send_str e z) (F90_KIND_G (ac z)) (F90_LEN_G (ac z))]
            else []) @
           [NextOwner (run_pc e z) 0 (- 1)]"
    by (subst io_read_ioproc_trace [OF assms])
       (simp add: own fan_out_def fort_owner_def fort_next_owner_def)
  have eq: "io_read e z =
      (if stat z = 0
       then (io_read e z)\<lparr>stat := fst (f90io_rw z (world z) (F90_KIND_G (ac z)) (cnt z)
                 (send_str e z * F90_LEN_G (ac z)) (send_adr e z) (F90_LEN_G (ac z))),
               world := snd (f90io_rw z (world z) (F90_KIND_G (ac z)) (cnt z)
                 (send_str e z * F90_LEN_G (ac z)) (send_adr e z) (F90_LEN_G (ac z)))\<rparr>
       else (io_read e z)\<lparr>stat := stat z, world := world z\<rparr>)"
    by (simp add: io_read_ioproc_eq [OF assms] Let_def send_adr_def send_str_def)
  have call: "stat z = 0 \<longrightarrow>
             stat (io_read e z) =
               fst (f90io_rw z (world z) (F90_KIND_G (ac z)) (cnt z) (send_str e z * F90_LEN_G (ac z))
                      (send_adr e z) (F90_LEN_G (ac z)))
           \<and> world (io_read e z) =
               snd (f90io_rw z (world z) (F90_KIND_G (ac z)) (cnt z) (send_str e z * F90_LEN_G (ac z))
                      (send_adr e z) (F90_LEN_G (ac z)))"
  proof
    assume ok: "stat z = 0"
    show "stat (io_read e z) =
               fst (f90io_rw z (world z) (F90_KIND_G (ac z)) (cnt z) (send_str e z * F90_LEN_G (ac z))
                      (send_adr e z) (F90_LEN_G (ac z)))
           \<and> world (io_read e z) =
               snd (f90io_rw z (world z) (F90_KIND_G (ac z)) (cnt z) (send_str e z * F90_LEN_G (ac z))
                      (send_adr e z) (F90_LEN_G (ac z)))"
      by (subst eq, subst (3) eq) (simp add: ok)
  qed
  have skip: "stat z \<noteq> 0 \<longrightarrow> stat (io_read e z) = stat z \<and> world (io_read e z) = world z"
    using io_read_ioproc_skip [OF assms, of z] by simp
  have sends: "filter is_transport (trace (io_read e z)) =
           filter is_transport (trace z) @
           map (\<lambda>q. Rsendl q (send_adr e z) (cnt z) (send_str e z) (F90_KIND_G (ac z)) (F90_LEN_G (ac z)))
             (filter (\<lambda>q. q \<noteq> GET_DIST_LCPU e) (run_owners e z))"
    by (subst tr) (simp add: own)
  have cursor: "\<forall>j < length (run_pc e z). int j < ndim (repl z) \<longrightarrow> run_pc e z ! j = 0"
    by (simp add: run_pc_def zero_pc_nth)
  have none: "\<forall>p a c s k l. p \<noteq> 0 \<longrightarrow>
             Rsendl p a c s k l \<notin> set (drop (length (trace z)) (trace (io_read e z)))"
    by (subst tr) simp
  have recv: "\<not> LOCAL_MODE e' \<and> GET_DIST_LCPU e' \<noteq> GET_DIST_IOPROC e'
           \<and> fort_local_address e' (ab z') (ac z') (index z') \<noteq> NULL \<longrightarrow>
             trace (io_read e' z') =
               trace z' @
               [LocalAddress (ab z') (index z') (fort_local_address e' (ab z') (ac z') (index z')),
                Getgbuf (cnt z' * F90_LEN_G (ac z')) (fort_getgbuf e' (cnt z' * F90_LEN_G (ac z'))),
                Rrecvl (GET_DIST_IOPROC e') (fort_local_address e' (ab z') (ac z') (index z'))
                  (cnt z') (str z') (F90_KIND_G (ac z')) (F90_LEN_G (ac z'))]"
  proof
    assume a: "\<not> LOCAL_MODE e' \<and> GET_DIST_LCPU e' \<noteq> GET_DIST_IOPROC e'
           \<and> fort_local_address e' (ab z') (ac z') (index z') \<noteq> NULL"
    then have m: "\<not> LOCAL_MODE e'" and o: "GET_DIST_LCPU e' \<noteq> GET_DIST_IOPROC e'"
      and h: "fort_local_address e' (ab z') (ac z') (index z') \<noteq> NULL" by simp_all
    show "trace (io_read e' z') =
               trace z' @
               [LocalAddress (ab z') (index z') (fort_local_address e' (ab z') (ac z') (index z')),
                Getgbuf (cnt z' * F90_LEN_G (ac z')) (fort_getgbuf e' (cnt z' * F90_LEN_G (ac z'))),
                Rrecvl (GET_DIST_IOPROC e') (fort_local_address e' (ab z') (ac z') (index z'))
                  (cnt z') (str z') (F90_KIND_G (ac z')) (F90_LEN_G (ac z'))]"
      using h by (simp add: io_read_other_eq [OF m o] Let_def)
  qed
  from tr call skip sends own cursor none recv show ?thesis by (intro conjI)
qed

theorem io_read_fan_out_witness:
  "trace (io_read (ex_env False 1) (ex_z 0)) =
     [LocalAddress 1000 [2] 0, Getgbuf 8 9000, F90ioRw 25 2 4 9000 4 7, Owner [2] 0,
      Rsendl 0 9000 2 1 25 4, NextOwner [0, 0, 5] 0 (- 1)]
   \<and> stat (io_read (ex_env False 1) (ex_z 0)) = 7
   \<and> world (io_read (ex_env False 1) (ex_z 0)) = 2
   \<and> trace (io_read (ex_env False 1) (ex_z 7)) =
       [LocalAddress 1000 [2] 0, Getgbuf 8 9000, Owner [2] 0, Rsendl 0 9000 2 1 25 4,
        NextOwner [0, 0, 5] 0 (- 1)]
   \<and> stat (io_read (ex_env False 1) (ex_z 7)) = 7
   \<and> world (io_read (ex_env False 1) (ex_z 7)) = 1
   \<and> run_owners (ex_env False 1) (ex_z 7) = [0]
   \<and> trace (io_read (ex_env_held 2) (ex_z 0)) =
       [LocalAddress 1000 [2] 1008, Getgbuf 8 9000, Rrecvl 1 1008 2 1 25 4]"
proof -
  have mode: "\<not> LOCAL_MODE (ex_env False 1)"
    and coord: "GET_DIST_LCPU (ex_env False 1) = GET_DIST_IOPROC (ex_env False 1)"
    by (simp_all add: ex_env_def)
  have z: "stat (ex_z st) = st" "trace (ex_z st) = []" "cnt (ex_z st) = 2" "str (ex_z st) = 1"
    "ab (ex_z st) = 1000" "index (ex_z st) = [2]" "ac (ex_z st) = ex_desc" "world (ex_z st) = 1"
    "f90io_rw (ex_z st) = ex_cb" for st
    by (simp_all add: ex_z_def)
  have d: "F90_KIND_G ex_desc = 25" "F90_LEN_G ex_desc = 4"
    by (simp_all add: ex_desc_def)
  have v: "fort_local_address (ex_env False 1) 1000 ex_desc [2] = 0"
    "fort_getgbuf (ex_env False 1) 8 = 9000" "GET_DIST_LCPU (ex_env False 1) = 1"
    "send_adr (ex_env False 1) (ex_z st) = 9000" "send_str (ex_env False 1) (ex_z st) = 1" for st
    by (simp_all add: ex_env_def send_adr_def send_str_def ex_z_def NULL_def)
  have pc: "run_pc (ex_env False 1) (ex_z 0) = [0, 0, 5]" "run_pc (ex_env False 1) (ex_z 7) = [0, 0, 5]"
    by code_simp+
  have cb: "ex_cb 1 25 2 4 9000 4 = (7, 2)"
    by (simp add: ex_cb_def)
  have held: "\<not> LOCAL_MODE (ex_env_held 2)" "GET_DIST_LCPU (ex_env_held 2) = 2"
    "fort_local_address (ex_env_held 2) 1000 ex_desc [2] = 1008" "(1008::int) \<noteq> NULL"
    "GET_DIST_IOPROC (ex_env_held 2) = 1" "fort_getgbuf (ex_env_held 2) 8 = 9000"
    by (simp_all add: ex_env_held_def ex_env_def NULL_def)
  note ok = io_read_fan_out [OF mode coord, where z = "ex_z 0" and e' = "ex_env_held 2" and z' = "ex_z 0"]
  note skip = io_read_fan_out [OF mode coord, where z = "ex_z 7" and e' = "ex_env_held 2" and z' = "ex_z 0"]
  from ok have st0: "stat (io_read (ex_env False 1) (ex_z 0)) = 7"
    and w0: "world (io_read (ex_env False 1) (ex_z 0)) = 2"
    by (simp_all add: z d v cb)
  from ok have tr0: "trace (io_read (ex_env False 1) (ex_z 0)) =
     [LocalAddress 1000 [2] 0, Getgbuf 8 9000, F90ioRw 25 2 4 9000 4 7, Owner [2] 0,
      Rsendl 0 9000 2 1 25 4, NextOwner [0, 0, 5] 0 (- 1)]"
    by (simp add: z d v pc st0)
  from skip have st7: "stat (io_read (ex_env False 1) (ex_z 7)) = 7"
    and w7: "world (io_read (ex_env False 1) (ex_z 7)) = 1"
    and own: "run_owners (ex_env False 1) (ex_z 7) = [0]"
    by (simp_all add: z)
  from skip have tr7: "trace (io_read (ex_env False 1) (ex_z 7)) =
       [LocalAddress 1000 [2] 0, Getgbuf 8 9000, Owner [2] 0, Rsendl 0 9000 2 1 25 4,
        NextOwner [0, 0, 5] 0 (- 1)]"
    by (simp add: z d v pc)
  from skip have rc: "trace (io_read (ex_env_held 2) (ex_z 0)) =
       [LocalAddress 1000 [2] 1008, Getgbuf 8 9000, Rrecvl 1 1008 2 1 25 4]"
    by (simp add: z d held)
  from tr0 st0 w0 tr7 st7 w7 own rc show ?thesis by (intro conjI)
qed

text \<open>
  The claim as stated ends with every receive of a non-coordinator owner being matched by a
  send. With every participant holding the array, participant 2 (not the coordinator, which
  is 1) posts a receive from participant 1 for the run, while all that participant 1 sends for
  that run goes to participant 0.
\<close>

theorem io_read_fan_out_counterexample:
  "GET_DIST_IOPROC (ex_env_held 1) = 1 \<and> GET_DIST_LCPU (ex_env_held 1) = 1
   \<and> GET_DIST_IOPROC (ex_env_held 2) = 1 \<and> GET_DIST_LCPU (ex_env_held 2) = 2
   \<and> trace (io_read (ex_env_held 2) (ex_z 0)) =
       [LocalAddress 1000 [2] 1008, Getgbuf 8 9000, Rrecvl 1 1008 2 1 25 4]
   \<and> trace (io_read (ex_env_held 1) (ex_z 0)) =
       [LocalAddress 1000 [2] 1008, Getgbuf 8 9000, F90ioRw 25 2 4 1008 4 7, Owner [2] 0,
        Rsendl 0 1008 2 1 25 4, NextOwner [0, 0, 5] 0 (- 1)]"
  by code_simp

text \<open>
  C4. On the write path: a run that finds a nonzero recorded status does nothing but resolve
  its local address, so the callback is skipped and the status stays; over any further
  sequence of runs the status, the I/O system and the calls of the callback stay as they
  were. For a whole write call the returned status is sticky: it is 0 when every call of
  the callback returned 0, and otherwise the first nonzero status the callback returned,
  that call being the last. The write transfer performs no send, receive or broadcast, and
  neither does a whole write call.
\<close>

theorem io_write_short_circuit:
  "(stat z \<noteq> 0 \<longrightarrow>
      io_write e z = emit (LocalAddress (ab z) (index z) (fort_local_address e (ab z) (ac z) (index z))) z)
   \<and> filter is_transport (trace (io_write e z)) = filter is_transport (trace z)
   \<and> (fio_rw z = IO_WRITE \<and> stat z \<noteq> 0 \<longrightarrow>
        stat (fortio_loop_runs e z rs) = stat z
      \<and> world (fortio_loop_runs e z rs) = world z
      \<and> filter is_callback (trace (fortio_loop_runs e z rs)) = filter is_callback (trace z))
   \<and> (rw \<noteq> 0 \<longrightarrow>
        sticky_status (fst (fortio_main e zu ab' ac' rw f w)) (trace (snd (fortio_main e zu ab' ac' rw f w)))
      \<and> filter is_transport (trace (snd (fortio_main e zu ab' ac' rw f w))) = [])"
proof (intro conjI impI)
  assume "stat z \<noteq> 0"
  then show "io_write e z = emit (LocalAddress (ab z) (index z) (fort_local_address e (ab z) (ac z) (index z))) z"
    by (simp add: io_write_eq Let_def emit_def)
next
  show "filter is_transport (trace (io_write e z)) = filter is_transport (trace z)"
    by (rule io_write_transport)
next
  assume a: "fio_rw z = IO_WRITE \<and> stat z \<noteq> 0"
  then have w: "fio_rw z = IO_WRITE" and nz: "stat z \<noteq> 0" by simp_all
  from fortio_loop_runs_write_skip [OF w nz, of e rs]
  show "stat (fortio_loop_runs e z rs) = stat z" "world (fortio_loop_runs e z rs) = world z"
    "filter is_callback (trace (fortio_loop_runs e z rs)) = filter is_callback (trace z)"
    by simp_all
next
  show "sticky_status (fst (fortio_main e zu ab' ac' rw f w)) (trace (snd (fortio_main e zu ab' ac' rw f w)))"
    by (rule fortio_main_sticky)
next
  assume "rw \<noteq> 0"
  then show "filter is_transport (trace (snd (fortio_main e zu ab' ac' rw f w))) = []"
    by (rule fortio_main_write_transport)
qed

theorem io_write_short_circuit_witness:
  "io_write (ex_env False 0) (ex_zw 7) = emit (LocalAddress 1000 [2] 1008) (ex_zw 7)
   \<and> stat (fortio_loop_runs (ex_env False 0) (ex_zw 7) [(2, 1, [2]), (2, 1, [4])]) = 7
   \<and> filter is_callback (trace (fortio_loop_runs (ex_env False 0) (ex_zw 7) [(2, 1, [2]), (2, 1, [4])])) = []
   \<and> fst (fortio_main (ex_env False 0) ex_zu 1000 ex_desc 1 ex_cb 0) = 7
   \<and> rw_results (trace (snd (fortio_main (ex_env False 0) ex_zu 1000 ex_desc 1 ex_cb 0))) = [0, 7]
   \<and> sticky_status 7 (trace (snd (fortio_main (ex_env False 0) ex_zu 1000 ex_desc 1 ex_cb 0)))
   \<and> filter is_transport (trace (snd (fortio_main (ex_env False 0) ex_zu 1000 ex_desc 1 ex_cb 0))) = []"
proof -
  note sc = io_write_short_circuit [where z = "ex_zw 7" and e = "ex_env False 0"
      and rs = "[(2, 1, [2]), (2, 1, [4])]" and rw = 1 and zu = ex_zu and ab' = 1000
      and ac' = ex_desc and f = ex_cb and w = 0]
  have z: "stat (ex_zw 7) = 7" "fio_rw (ex_zw 7) = IO_WRITE" "trace (ex_zw 7) = []"
    "ab (ex_zw 7) = 1000" "index (ex_zw 7) = [2]" "ac (ex_zw 7) = ex_desc"
    by (simp_all add: ex_zw_def ex_z_def)
  have adr: "fort_local_address (ex_env False 0) 1000 ex_desc [2] = 1008"
    by (simp add: ex_env_def)
  have st: "fst (fortio_main (ex_env False 0) ex_zu 1000 ex_desc 1 ex_cb 0) = 7"
    and res: "rw_results (trace (snd (fortio_main (ex_env False 0) ex_zu 1000 ex_desc 1 ex_cb 0))) = [0, 7]"
    by code_simp+
  from sc have a: "io_write (ex_env False 0) (ex_zw 7) = emit (LocalAddress 1000 [2] 1008) (ex_zw 7)"
    by (simp add: z adr)
  from sc have b: "stat (fortio_loop_runs (ex_env False 0) (ex_zw 7) [(2, 1, [2]), (2, 1, [4])]) = 7"
    "filter is_callback (trace (fortio_loop_runs (ex_env False 0) (ex_zw 7) [(2, 1, [2]), (2, 1, [4])])) = []"
    by (simp_all add: z)
  from sc have c: "sticky_status 7 (trace (snd (fortio_main (ex_env False 0) ex_zu 1000 ex_desc 1 ex_cb 0)))"
    "filter is_transport (trace (snd (fortio_main (ex_env False 0) ex_zu 1000 ex_desc 1 ex_cb 0))) = []"
    by (simp_all add: st)
  from a b c st res show ?thesis by (intro conjI)
qed

text \<open>
  C5 (as amended). In local mode a scalar write calls the callback exactly once and does
  nothing else: the call has count 1, the literal 1 as its stride argument (not multiplied
  by the element length) and the size of the scalar's kind as its element length; no
  broadcast occurs, and the returned status is the callback's.
\<close>

theorem fortio_main_scalar_write_local:
  assumes "LOCAL_MODE e" and "F90_TAG_G ac' \<noteq> DESC e" and "rw \<noteq> 0"
  shows "trace (snd (fortio_main e zu ab' ac' rw f w)) =
           [F90ioRw (TYPEKIND e ac') 1 1 ab' (GET_DIST_SIZE_OF e (TYPEKIND e ac'))
              (fst (fortio_main e zu ab' ac' rw f w))]
       \<and> fst (fortio_main e zu ab' ac' rw f w) =
           fst (f w (TYPEKIND e ac') 1 1 ab' (GET_DIST_SIZE_OF e (TYPEKIND e ac')))
       \<and> world (snd (fortio_main e zu ab' ac' rw f w)) =
           snd (f w (TYPEKIND e ac') 1 1 ab' (GET_DIST_SIZE_OF e (TYPEKIND e ac')))"
  using assms by (simp add: fortio_main_def call_f90io_rw_eq Let_def fortio_stat_bcst_def)

theorem fortio_main_scalar_write_local_witness:
  "trace (snd (fortio_main (ex_env True 0) ex_zu 1000 ex_scalar 1 ex_cb 0)) = [F90ioRw 25 1 1 1000 4 0]
   \<and> fst (fortio_main (ex_env True 0) ex_zu 1000 ex_scalar 1 ex_cb 0) = 0
   \<and> world (snd (fortio_main (ex_env True 0) ex_zu 1000 ex_scalar 1 ex_cb 0)) = 1"
proof -
  have h: "LOCAL_MODE (ex_env True 0)" "F90_TAG_G ex_scalar \<noteq> DESC (ex_env True 0)" "(1::int) \<noteq> 0"
    by (simp_all add: ex_env_def ex_scalar_def ex_desc_def)
  have v: "TYPEKIND (ex_env True 0) ex_scalar = 25" "GET_DIST_SIZE_OF (ex_env True 0) 25 = 4"
    "ex_cb 0 25 1 1 1000 4 = (0, 1)"
    by (simp_all add: ex_env_def ex_scalar_def ex_desc_def ex_cb_def)
  from fortio_main_scalar_write_local [OF h, of ex_zu 1000 ex_cb 0] show ?thesis
    by (simp add: v)
qed

text \<open>
  The claim as stated gives the stride argument as the element length. For a scalar of a
  kind of size 4 the call is \<^verbatim>\<open>f90io_rw(25, 1, 1, ab, 4)\<close>: the stride is 1 and the element
  length is 4.
\<close>

theorem fortio_main_scalar_write_local_counterexample:
  "trace (snd (fortio_main (ex_env True 0) ex_zu 1000 ex_scalar 1 ex_cb 0)) = [F90ioRw 25 1 1 1000 4 0]
   \<and> GET_DIST_SIZE_OF (ex_env True 0) (TYPEKIND (ex_env True 0) ex_scalar) = 4
   \<and> \<not> list_all stride_eq_len (trace (snd (fortio_main (ex_env True 0) ex_zu 1000 ex_scalar 1 ex_cb 0)))"
  by code_simp

text \<open>
  C6. On the read path outside local mode. At the coordinator, when the local address of the
  run is null, the address becomes the scratch buffer of \<^verbatim>\<open>cnt * len\<close> bytes and the stride
  1: with no failure recorded, the one call of the callback fills that buffer with the byte
  stride \<^verbatim>\<open>1 * len\<close>, and the sends to the owners carry the buffer and the stride 1. At a
  participant that is not the coordinator, the only transport operation is a receive from the
  coordinator into the local address, and it is there exactly when that address is not null;
  the callback is not called, and the status and the I/O system are unchanged. So a
  participant that is not the coordinator and holds nothing of the run neither sends nor
  receives.
\<close>

theorem io_read_redirect_receive:
  assumes "\<not> LOCAL_MODE e"
  shows "(GET_DIST_LCPU e = GET_DIST_IOPROC e
          \<and> fort_local_address e (ab z) (ac z) (index z) = NULL \<longrightarrow>
            (stat z = 0 \<longrightarrow>
               filter is_callback (trace (io_read e z)) =
                 filter is_callback (trace z) @
                 [F90ioRw (F90_KIND_G (ac z)) (cnt z) (1 * F90_LEN_G (ac z))
                    (fort_getgbuf e (cnt z * F90_LEN_G (ac z))) (F90_LEN_G (ac z)) (stat (io_read e z))])
          \<and> filter is_transport (trace (io_read e z)) =
               filter is_transport (trace z) @
               map (\<lambda>q. Rsendl q (fort_getgbuf e (cnt z * F90_LEN_G (ac z))) (cnt z) 1
                          (F90_KIND_G (ac z)) (F90_LEN_G (ac z)))
                 (filter (\<lambda>q. q \<noteq> GET_DIST_LCPU e) (run_owners e z)))
       \<and> (GET_DIST_LCPU e \<noteq> GET_DIST_IOPROC e \<longrightarrow>
            filter is_transport (trace (io_read e z)) =
              filter is_transport (trace z) @
              (if fort_local_address e (ab z) (ac z) (index z) \<noteq> NULL
               then [Rrecvl (GET_DIST_IOPROC e) (fort_local_address e (ab z) (ac z) (index z))
                       (cnt z) (str z) (F90_KIND_G (ac z)) (F90_LEN_G (ac z))]
               else [])
          \<and> filter is_callback (trace (io_read e z)) = filter is_callback (trace z)
          \<and> stat (io_read e z) = stat z
          \<and> world (io_read e z) = world z)"
proof (intro conjI impI)
  assume a: "GET_DIST_LCPU e = GET_DIST_IOPROC e \<and> fort_local_address e (ab z) (ac z) (index z) = NULL"
  then have coord: "GET_DIST_LCPU e = GET_DIST_IOPROC e"
    and null: "fort_local_address e (ab z) (ac z) (index z) = NULL" by simp_all
  note tr = io_read_ioproc_trace [OF assms coord, of z]
  have adr: "send_adr e z = fort_getgbuf e (cnt z * F90_LEN_G (ac z))" and str: "send_str e z = 1"
    using null by (simp_all add: send_adr_def send_str_def)
  show "filter is_transport (trace (io_read e z)) =
               filter is_transport (trace z) @
               map (\<lambda>q. Rsendl q (fort_getgbuf e (cnt z * F90_LEN_G (ac z))) (cnt z) 1
                          (F90_KIND_G (ac z)) (F90_LEN_G (ac z)))
                 (filter (\<lambda>q. q \<noteq> GET_DIST_LCPU e) (run_owners e z))"
    by (subst tr) (simp add: transport_fan_out adr str)
  assume ok: "stat z = 0"
  show "filter is_callback (trace (io_read e z)) =
                 filter is_callback (trace z) @
                 [F90ioRw (F90_KIND_G (ac z)) (cnt z) (1 * F90_LEN_G (ac z))
                    (fort_getgbuf e (cnt z * F90_LEN_G (ac z))) (F90_LEN_G (ac z)) (stat (io_read e z))]"
    by (subst tr) (simp add: adr str ok)
next
  assume other: "GET_DIST_LCPU e \<noteq> GET_DIST_IOPROC e"
  note eq = io_read_other_eq [OF assms other, of z]
  show "filter is_transport (trace (io_read e z)) =
              filter is_transport (trace z) @
              (if fort_local_address e (ab z) (ac z) (index z) \<noteq> NULL
               then [Rrecvl (GET_DIST_IOPROC e) (fort_local_address e (ab z) (ac z) (index z))
                       (cnt z) (str z) (F90_KIND_G (ac z)) (F90_LEN_G (ac z))]
               else [])"
    by (simp add: eq Let_def)
  show "filter is_callback (trace (io_read e z)) = filter is_callback (trace z)"
    by (simp add: eq Let_def)
  show "stat (io_read e z) = stat z" "world (io_read e z) = world z"
    by (simp_all add: eq Let_def)
qed

theorem io_read_redirect_receive_witness:
  "filter is_callback (trace (io_read (ex_env False 1) (ex_z 0))) = [F90ioRw 25 2 4 9000 4 7]
   \<and> filter is_transport (trace (io_read (ex_env False 1) (ex_z 0))) = [Rsendl 0 9000 2 1 25 4]
   \<and> filter is_transport (trace (io_read (ex_env False 0) (ex_z 0))) = [Rrecvl 1 1008 2 1 25 4]
   \<and> filter is_callback (trace (io_read (ex_env False 0) (ex_z 0))) = []
   \<and> filter is_transport (trace (io_read (ex_env False 2) (ex_z 0))) = []
   \<and> stat (io_read (ex_env False 2) (ex_z 0)) = 0"
proof -
  have mode: "\<not> LOCAL_MODE (ex_env False cpu)" for cpu
    by (simp add: ex_env_def)
  have cpu: "GET_DIST_LCPU (ex_env False c) = c" "GET_DIST_IOPROC (ex_env False c) = 1" for c
    by (simp_all add: ex_env_def)
  have z: "stat (ex_z 0) = 0" "trace (ex_z 0) = []" "cnt (ex_z 0) = 2" "str (ex_z 0) = 1"
    "ab (ex_z 0) = 1000" "index (ex_z 0) = [2]" "ac (ex_z 0) = ex_desc"
    by (simp_all add: ex_z_def)
  have d: "F90_KIND_G ex_desc = 25" "F90_LEN_G ex_desc = 4"
    by (simp_all add: ex_desc_def)
  have adr: "fort_local_address (ex_env False 1) 1000 ex_desc [2] = NULL"
    "fort_local_address (ex_env False 0) 1000 ex_desc [2] = 1008"
    "fort_local_address (ex_env False 2) 1000 ex_desc [2] = NULL"
    "fort_getgbuf (ex_env False 1) 8 = 9000" "(1008::int) \<noteq> NULL"
    by (simp_all add: ex_env_def NULL_def)
  have owners: "run_owners (ex_env False 1) (ex_z 0) = [0]"
    by (simp add: run_owners_def owner_walk_macro)
  have st: "stat (io_read (ex_env False 1) (ex_z 0)) = 7"
    by code_simp
  from io_read_redirect_receive [OF mode, of 1 "ex_z 0"]
  have a: "filter is_callback (trace (io_read (ex_env False 1) (ex_z 0))) = [F90ioRw 25 2 4 9000 4 7]"
    "filter is_transport (trace (io_read (ex_env False 1) (ex_z 0))) = [Rsendl 0 9000 2 1 25 4]"
    by (simp_all add: cpu z d adr owners st)
  from io_read_redirect_receive [OF mode, of 0 "ex_z 0"]
  have b: "filter is_transport (trace (io_read (ex_env False 0) (ex_z 0))) = [Rrecvl 1 1008 2 1 25 4]"
    "filter is_callback (trace (io_read (ex_env False 0) (ex_z 0))) = []"
    by (simp_all add: cpu z d adr)
  from io_read_redirect_receive [OF mode, of 2 "ex_z 0"]
  have c: "filter is_transport (trace (io_read (ex_env False 2) (ex_z 0))) = []"
    "stat (io_read (ex_env False 2) (ex_z 0)) = 0"
    by (simp_all add: cpu z d adr)
  from a b c show ?thesis by (intro conjI)
qed

text \<open>
  C10. On the write path, with no failure recorded, \<^verbatim>\<open>__io_write\<close> resolves the local
  address and calls the callback once on whatever address came back, with the byte stride
  \<^verbatim>\<open>str * len\<close>; it acquires no scratch buffer and does not test the address. When the
  address is null, the callback is called on the null address.
\<close>

theorem io_write_null_address:
  assumes "stat z = 0"
  shows "trace (io_write e z) =
           trace z @
           [LocalAddress (ab z) (index z) (fort_local_address e (ab z) (ac z) (index z)),
            F90ioRw (F90_KIND_G (ac z)) (cnt z) (str z * F90_LEN_G (ac z))
              (fort_local_address e (ab z) (ac z) (index z)) (F90_LEN_G (ac z)) (stat (io_write e z))]
       \<and> stat (io_write e z) =
           fst (f90io_rw z (world z) (F90_KIND_G (ac z)) (cnt z) (str z * F90_LEN_G (ac z))
                  (fort_local_address e (ab z) (ac z) (index z)) (F90_LEN_G (ac z)))
       \<and> (fort_local_address e (ab z) (ac z) (index z) = NULL \<longrightarrow>
            filter is_callback (trace (io_write e z)) =
              filter is_callback (trace z) @
              [F90ioRw (F90_KIND_G (ac z)) (cnt z) (str z * F90_LEN_G (ac z)) NULL (F90_LEN_G (ac z))
                 (stat (io_write e z))])"
  using assms by (simp add: io_write_eq Let_def)

theorem io_write_null_address_witness:
  "fort_local_address (ex_env False 1) (ab (ex_zw 0)) (ac (ex_zw 0)) (index (ex_zw 0)) = NULL
   \<and> trace (io_write (ex_env False 1) (ex_zw 0)) = [LocalAddress 1000 [2] NULL, F90ioRw 25 2 4 NULL 4 7]
   \<and> stat (io_write (ex_env False 1) (ex_zw 0)) = 7
   \<and> filter is_callback (trace (io_write (ex_env False 1) (ex_zw 0))) = [F90ioRw 25 2 4 NULL 4 7]"
proof -
  have z: "stat (ex_zw 0) = 0" "trace (ex_zw 0) = []" "cnt (ex_zw 0) = 2" "str (ex_zw 0) = 1"
    "ab (ex_zw 0) = 1000" "index (ex_zw 0) = [2]" "ac (ex_zw 0) = ex_desc" "world (ex_zw 0) = 1"
    "f90io_rw (ex_zw 0) = ex_cb"
    by (simp_all add: ex_zw_def ex_z_def)
  have d: "F90_KIND_G ex_desc = 25" "F90_LEN_G ex_desc = 4"
    by (simp_all add: ex_desc_def)
  have adr: "fort_local_address (ex_env False 1) 1000 ex_desc [2] = NULL"
    by (simp add: ex_env_def)
  have cb: "ex_cb 1 25 2 4 NULL 4 = (7, 2)"
    by (simp add: ex_cb_def)
  from io_write_null_address [OF z(1), of "ex_env False 1"] show ?thesis
    by (simp add: z d adr cb)
qed

section \<open>Lemmas on fast sets\<close>

subsection \<open>Words and array access\<close>

lemma uint_less_length: "uint w < int n \<longleftrightarrow> unat w < n"
  unfolding unat_eq_nat_uint by (simp only: nat_less_iff unsigned_greater_eq)

lemma array_get_uint:
  "array_get a (uint w) = (if unat w < length a then Some (a ! unat w) else None)"
  unfolding array_get_def uint_less_length by simp

lemma array_set_uint:
  "array_set a (uint w) v = (if unat w < length a then Some (a[unat w := v]) else None)"
  unfolding array_set_def uint_less_length by simp

lemma sint_nonneg_uint:
  fixes x :: "'a::len word"
  assumes "0 \<le> sint x"
  shows "sint x = uint x"
proof -
  have "sint x < 2 ^ (LENGTH('a) - 1)" by (rule sint_lt)
  also have "(2::int) ^ (LENGTH('a) - 1) \<le> 2 ^ LENGTH('a)"
    by (rule power_increasing) simp_all
  finally have "take_bit LENGTH('a) (sint x) = sint x"
    using assms by (simp add: take_bit_int_eq_self)
  then show ?thesis by (simp add: uint_sint)
qed

lemma unat_succ:
  fixes m :: "'a::len word"
  assumes "m < l"
  shows "unat (m + 1) = Suc (unat m)"
proof -
  have "unat m < unat l" using assms by (simp add: word_less_nat_alt)
  moreover have "unat l < 2 ^ LENGTH('a)" by (rule unsigned_less)
  ultimately have "unat m + 1 < 2 ^ LENGTH('a)" by linarith
  then have "unat m + unat (1::'a word) < 2 ^ LENGTH('a)" by simp
  then have "unat (m + 1) = unat m + unat (1::'a word)"
    by (simp only: unat_add_lem)
  then show ?thesis by simp
qed

lemma unat_max: "unat (max (a::'a::len word) b) = max (unat a) (unat b)"
  by (simp add: max_def word_le_nat_alt)

lemma less_succ:
  fixes x :: "'a::len word"
  assumes "x \<noteq> - 1"
  shows "x < x + 1"
  using assms by (metis inc_less_eq_triv_imp linorder_less_linear word_le_less_eq)

lemma sint_nonneg_not_max:
  fixes x :: "'a::len word"
  assumes "0 \<le> sint x"
  shows "x \<noteq> - 1"
  using assms by auto

subsection \<open>The invariant\<close>

lemma fastset_inv_len:
  assumes "fastset_inv s"
  shows "length (member_arr s) = unat (limit s)" "length (index_arr s) = unat (limit s)"
    "unat (members s) \<le> unat (limit s)"
  using assms by (simp_all add: fastset_inv_def word_le_nat_alt)

lemma length_elems: "fastset_inv s \<Longrightarrow> length (elems s) = unat (members s)"
  by (simp add: elems_def fastset_inv_len)

lemma elems_conv_nth:
  assumes "length (member_arr s) = unat (limit s)" and "unat (members s) \<le> unat (limit s)"
  shows "x \<in> set (elems s) \<longleftrightarrow> (\<exists>i < unat (members s). member_arr s ! i = x)"
  using assms by (auto simp: elems_def in_set_conv_nth)

text \<open>The invariant by positions: the index array sends each live element back to its slot.\<close>

lemma fastset_inv_pos:
  "fastset_inv s \<longleftrightarrow>
     length (member_arr s) = unat (limit s)
   \<and> length (index_arr s) = unat (limit s)
   \<and> unat (members s) \<le> unat (limit s)
   \<and> (\<forall>i < unat (members s).
         unat (member_arr s ! i) < unat (limit s)
       \<and> unat (index_arr s ! unat (member_arr s ! i)) = i)"
  (is "?inv \<longleftrightarrow> ?pos")
proof
  assume inv: ?inv
  note len = fastset_inv_len [OF inv]
  have dist: "distinct (elems s)" using inv by (simp add: fastset_inv_def)
  have each: "x < limit s \<and> index_arr s ! unat x < members s
      \<and> member_arr s ! unat (index_arr s ! unat x) = x" if "x \<in> set (elems s)" for x
    using inv that by (simp add: fastset_inv_def)
  have "unat (member_arr s ! i) < unat (limit s)
      \<and> unat (index_arr s ! unat (member_arr s ! i)) = i" if i: "i < unat (members s)" for i
  proof -
    let ?x = "member_arr s ! i"
    let ?p = "unat (index_arr s ! unat ?x)"
    have mem: "?x \<in> set (elems s)"
      using i len by (auto simp: elems_conv_nth)
    from each [OF mem] have lt: "?x < limit s" and p: "?p < unat (members s)"
      and rt: "member_arr s ! ?p = ?x"
      by (simp_all add: word_less_nat_alt)
    have "elems s ! ?p = elems s ! i"
      using p i rt by (simp add: elems_def)
    moreover have "?p < length (elems s)" "i < length (elems s)"
      using p i len by (simp_all add: elems_def)
    ultimately have "?p = i"
      using dist by (simp add: nth_eq_iff_index_eq)
    with lt show ?thesis by (simp add: word_less_nat_alt)
  qed
  with len show ?pos by simp
next
  assume pos: ?pos
  then have len: "length (member_arr s) = unat (limit s)" "length (index_arr s) = unat (limit s)"
    "unat (members s) \<le> unat (limit s)" by simp_all
  have at: "unat (member_arr s ! i) < unat (limit s)"
    "unat (index_arr s ! unat (member_arr s ! i)) = i" if "i < unat (members s)" for i
    using pos that by simp_all
  have "distinct (elems s)"
  proof (unfold distinct_conv_nth, intro allI impI)
    fix i j assume "i < length (elems s)" "j < length (elems s)" "i \<noteq> j"
    then have i: "i < unat (members s)" and j: "j < unat (members s)" and ne: "i \<noteq> j"
      using len by (simp_all add: elems_def)
    show "elems s ! i \<noteq> elems s ! j"
    proof
      assume "elems s ! i = elems s ! j"
      then have "member_arr s ! i = member_arr s ! j" using i j by (simp add: elems_def)
      with at(2) [OF i] at(2) [OF j] ne show False by simp
    qed
  qed
  moreover have "x < limit s \<and> index_arr s ! unat x < members s
      \<and> member_arr s ! unat (index_arr s ! unat x) = x" if "x \<in> set (elems s)" for x
  proof -
    from that obtain i where i: "i < unat (members s)" and x: "member_arr s ! i = x"
      using len by (auto simp: elems_conv_nth)
    from at [OF i] i x show ?thesis by (simp add: word_less_nat_alt)
  qed
  ultimately show ?inv using len by (simp add: fastset_inv_def word_le_nat_alt)
qed

lemma fastset_inv_at:
  assumes "fastset_inv s" and "i < unat (members s)"
  shows "unat (member_arr s ! i) < unat (limit s)"
    and "unat (index_arr s ! unat (member_arr s ! i)) = i"
  using assms by (simp_all add: fastset_inv_pos)

lemma fastset_inv_elem:
  assumes "fastset_inv s" and "x \<in> set (elems s)"
  shows "unat x < unat (limit s)" and "unat (index_arr s ! unat x) < unat (members s)"
    and "member_arr s ! unat (index_arr s ! unat x) = x"
  using assms by (simp_all add: fastset_inv_def word_less_nat_alt)

text \<open>A set that misses a value below the limit is not full.\<close>

lemma fastset_room:
  assumes inv: "fastset_inv s" and x: "unat x < unat (limit s)" and new: "x \<notin> set (elems s)"
  shows "unat (members s) < unat (limit s)"
proof -
  have sub: "unat ` set (elems s) \<subseteq> {..<unat (limit s)} - {unat x}"
    using fastset_inv_elem(1) [OF inv] new by (auto dest: word_unat_eq_iff [THEN iffD2])
  have "card (unat ` set (elems s)) = card (set (elems s))"
    by (rule card_image) (auto simp: inj_on_def dest: word_unat_eq_iff [THEN iffD2])
  also have "\<dots> = unat (members s)"
    using inv by (simp add: distinct_card fastset_inv_def length_elems)
  finally have "unat (members s) \<le> card ({..<unat (limit s)} - {unat x})"
    using sub by (metis card_mono finite_Diff finite_lessThan)
  also have "\<dots> = unat (limit s) - 1" using x by simp
  finally show ?thesis using x by simp
qed

text \<open>The membership test that \<^verbatim>\<open>fastset_contains\<close>, \<^verbatim>\<open>fastset_add\<close> and
  \<^verbatim>\<open>fastset_remove\<close> share.\<close>

lemma fastset_probe:
  assumes inv: "fastset_inv s" and x: "unat x < unat (limit s)"
  shows "(unat (index_arr s ! unat x) < unat (members s)
          \<and> member_arr s ! unat (index_arr s ! unat x) = x) \<longleftrightarrow> x \<in> set (elems s)"
proof
  assume "unat (index_arr s ! unat x) < unat (members s)
          \<and> member_arr s ! unat (index_arr s ! unat x) = x"
  then show "x \<in> set (elems s)"
    using fastset_inv_len [OF inv] by (auto simp: elems_conv_nth)
next
  assume "x \<in> set (elems s)"
  from fastset_inv_elem(2,3) [OF inv this]
  show "unat (index_arr s ! unat x) < unat (members s)
          \<and> member_arr s ! unat (index_arr s ! unat x) = x" by simp
qed

lemma fastset_contains_elems:
  assumes inv: "fastset_inv s" and x: "0 \<le> sint x"
  shows "fastset_contains s x = Some (x \<in> set (elems s))"
proof (cases "x < limit s")
  case False
  then have "x \<notin> set (elems s)"
    using fastset_inv_elem(1) [OF inv] by (auto simp: word_less_nat_alt)
  with False show ?thesis by (simp add: fastset_contains_def)
next
  case True
  then have lt: "unat x < unat (limit s)" by (simp add: word_less_nat_alt)
  note len = fastset_inv_len [OF inv]
  have get: "array_get (index_arr s) (sint x) = Some (index_arr s ! unat x)"
    using lt len by (simp add: sint_nonneg_uint [OF x] array_get_uint)
  show ?thesis
  proof (cases "index_arr s ! unat x < members s")
    case idx: True
    then have "unat (index_arr s ! unat x) < length (member_arr s)"
      using len by (simp add: word_less_nat_alt)
    then show ?thesis
      using True idx get fastset_probe [OF inv lt]
      by (simp add: fastset_contains_def array_get_uint word_less_nat_alt)
  next
    case idx: False
    then show ?thesis
      using True get fastset_probe [OF inv lt]
      by (simp add: fastset_contains_def word_less_nat_alt)
  qed
qed

subsection \<open>The operations keep the invariant\<close>

lemma fastset_init_inv: "fastset_inv (fastset_init s)"
  by (simp add: fastset_inv_def fastset_init_def elems_def)

lemma fastset_vacate_inv:
  assumes "fastset_inv s"
  shows "fastset_inv (fastset_vacate s)"
  using assms by (simp add: fastset_inv_def fastset_vacate_def elems_def)

lemma fastset_resize_inv:
  assumes inv: "fastset_inv s"
  shows "fastset_inv (fastset_resize a s h)"
    and "members (fastset_resize a s h) = members s"
    and "elems (fastset_resize a s h) = elems s"
    and "unat (limit s) \<le> unat (limit (fastset_resize a s h))"
    and "unat h \<le> unat (limit (fastset_resize a s h))"
proof -
  note len = fastset_inv_len [OF inv]
  let ?l = "max h (new_limit a)"
  let ?s = "s\<lparr>limit := ?l,
      member_arr := member_arr s @ map (fresh_member a) [length (member_arr s) ..< unat ?l],
      index_arr := index_arr s @ map (fresh_index a) [length (index_arr s) ..< unat ?l]\<rparr>"
  have all: "fastset_inv (fastset_resize a s h) \<and> members (fastset_resize a s h) = members s
      \<and> elems (fastset_resize a s h) = elems s
      \<and> unat (limit s) \<le> unat (limit (fastset_resize a s h))
      \<and> unat h \<le> unat (limit (fastset_resize a s h))"
  proof (cases "h > limit s")
    case False
    then show ?thesis using inv by (simp add: fastset_resize_def word_less_nat_alt)
  next
    case True
    then have grow: "unat (limit s) < unat ?l" and hint: "unat h \<le> unat ?l"
      by (simp_all add: unat_max word_less_nat_alt)
    have eq: "fastset_resize a s h = ?s" using True by (simp add: fastset_resize_def Let_def)
    have el: "elems ?s = elems s" using len by (simp add: elems_def)
    have "fastset_inv ?s"
      unfolding fastset_inv_pos
    proof (intro conjI allI impI)
      show "length (member_arr ?s) = unat (limit ?s)" "length (index_arr ?s) = unat (limit ?s)"
        using len grow by simp_all
      show "unat (members ?s) \<le> unat (limit ?s)" using len grow by simp
    next
      fix i assume "i < unat (members ?s)"
      then have i: "i < unat (members s)" by simp
      from fastset_inv_at [OF inv i] i len grow
      show "unat (member_arr ?s ! i) < unat (limit ?s)"
        "unat (index_arr ?s ! unat (member_arr ?s ! i)) = i"
        by (simp_all add: nth_append)
    qed
    with eq el grow hint show ?thesis by simp
  qed
  from all show "fastset_inv (fastset_resize a s h)" "members (fastset_resize a s h) = members s"
    "elems (fastset_resize a s h) = elems s"
    "unat (limit s) \<le> unat (limit (fastset_resize a s h))"
    "unat h \<le> unat (limit (fastset_resize a s h))" by simp_all
qed

text \<open>The final statement of \<^verbatim>\<open>fastset_add\<close>, on a set that has room for a new value.\<close>

lemma fastset_store_new:
  assumes inv: "fastset_inv s" and x: "unat x < unat (limit s)" and new: "x \<notin> set (elems s)"
  shows "\<exists>s'. fastset_store s x = Some s' \<and> fastset_inv s' \<and> elems s' = elems s @ [x]
          \<and> unat (members s') = Suc (unat (members s))"
proof -
  note len = fastset_inv_len [OF inv]
  have room: "unat (members s) < unat (limit s)" by (rule fastset_room [OF inv x new])
  then have lt: "members s < limit s" by (simp add: word_less_nat_alt)
  let ?n = "unat (members s)"
  let ?s = "s\<lparr>members := members s + 1, index_arr := (index_arr s)[unat x := members s],
      member_arr := (member_arr s)[?n := x]\<rparr>"
  have st: "fastset_store s x = Some ?s"
    using x room len by (simp add: fastset_store_def array_set_uint Let_def)
  note suc = unat_succ [OF lt]
  have n': "unat (members ?s) = Suc ?n" using suc by simp
  have el: "elems ?s = elems s @ [x]"
    using room len by (simp add: elems_def suc take_Suc_conv_app_nth)
  have "fastset_inv ?s"
    unfolding fastset_inv_pos
  proof (intro conjI allI impI)
    show "length (member_arr ?s) = unat (limit ?s)" "length (index_arr ?s) = unat (limit ?s)"
      using len by simp_all
    show "unat (members ?s) \<le> unat (limit ?s)" using room n' by simp
  next
    fix i assume "i < unat (members ?s)"
    then have i: "i < Suc ?n" using n' by simp
    show "unat (member_arr ?s ! i) < unat (limit ?s)"
      "unat (index_arr ?s ! unat (member_arr ?s ! i)) = i"
    proof -
      have "unat (member_arr ?s ! i) < unat (limit ?s)
          \<and> unat (index_arr ?s ! unat (member_arr ?s ! i)) = i"
      proof (cases "i = ?n")
        case True
        then show ?thesis using x room len by simp
      next
        case False
        with i have old: "i < ?n" by simp
        have "member_arr s ! i \<in> set (elems s)"
          using old len by (auto simp: elems_conv_nth)
        with new have "member_arr s ! i \<noteq> x" by auto
        then have "unat (member_arr s ! i) \<noteq> unat x" by (simp add: word_unat_eq_iff)
        with fastset_inv_at [OF inv old] False show ?thesis by simp
      qed
      then show "unat (member_arr ?s ! i) < unat (limit ?s)"
        "unat (index_arr ?s ! unat (member_arr ?s ! i)) = i" by simp_all
    qed
  qed
  with st el n' show ?thesis by blast
qed

lemma fastset_add_ok:
  assumes inv: "fastset_inv s" and x: "x \<noteq> - 1"
  shows "\<exists>s'. fastset_add a s x = Some s' \<and> fastset_inv s'
          \<and> (x \<in> set (elems s) \<longrightarrow> s' = s)
          \<and> (x \<notin> set (elems s) \<longrightarrow>
                elems s' = elems s @ [x] \<and> unat (members s') = Suc (unat (members s)))"
proof (cases "x \<ge> limit s")
  case True
  let ?r = "fastset_resize a s (x + 1)"
  note r = fastset_resize_inv [OF inv, where a = a and h = "x + 1"]
  have "unat x < unat (x + 1)" using less_succ [OF x] by (simp add: word_less_nat_alt)
  with r(5) have lt: "unat x < unat (limit ?r)" by simp
  have new: "x \<notin> set (elems s)"
    using fastset_inv_elem(1) [OF inv, of x] True by (auto simp: word_le_nat_alt)
  then have "x \<notin> set (elems ?r)" by (simp add: r(3))
  from fastset_store_new [OF r(1) lt this] new True show ?thesis
    by (simp add: fastset_add_def r(2,3))
next
  case False
  then have lt: "unat x < unat (limit s)" by (simp add: word_le_nat_alt)
  note len = fastset_inv_len [OF inv]
  note probe = fastset_probe [OF inv lt]
  show ?thesis
  proof (cases "x \<in> set (elems s)")
    case True
    with probe have "unat (index_arr s ! unat x) < unat (members s)"
      "member_arr s ! unat (index_arr s ! unat x) = x" by simp_all
    with True False lt len inv show ?thesis
      by (simp add: fastset_add_def array_get_uint word_less_nat_alt)
  next
    case new: False
    from fastset_store_new [OF inv lt new] obtain s' where s':
      "fastset_store s x = Some s'" "fastset_inv s'" "elems s' = elems s @ [x]"
      "unat (members s') = Suc (unat (members s))" by blast
    have "fastset_add a s x = Some s'"
    proof (cases "unat (index_arr s ! unat x) < unat (members s)")
      case True
      with probe new have "member_arr s ! unat (index_arr s ! unat x) \<noteq> x" by simp
      with True False lt len s'(1) show ?thesis
        by (simp add: fastset_add_def array_get_uint word_less_nat_alt)
    next
      case idx: False
      with False lt len s'(1) show ?thesis
        by (simp add: fastset_add_def array_get_uint word_less_nat_alt)
    qed
    with s' new show ?thesis by simp
  qed
qed

lemma fastset_remove_absent:
  assumes inv: "fastset_inv s" and x: "0 \<le> sint x \<or> limit s \<le> x" and new: "x \<notin> set (elems s)"
  shows "fastset_remove s x = Some s"
proof (cases "x < limit s")
  case False
  then show ?thesis by (simp add: fastset_remove_def)
next
  case True
  then have lt: "unat x < unat (limit s)" and nn: "0 \<le> sint x"
    using x by (auto simp: word_less_nat_alt word_le_nat_alt)
  note len = fastset_inv_len [OF inv]
  have get: "array_get (index_arr s) (sint x) = Some (index_arr s ! unat x)"
    using lt len by (simp add: sint_nonneg_uint [OF nn] array_get_uint)
  show ?thesis
  proof (cases "unat (index_arr s ! unat x) < unat (members s)")
    case idx: True
    with fastset_probe [OF inv lt] new have "member_arr s ! unat (index_arr s ! unat x) \<noteq> x"
      by simp
    with True idx get len show ?thesis
      by (simp add: fastset_remove_def array_get_uint word_less_nat_alt)
  next
    case idx: False
    with True get show ?thesis
      by (simp add: fastset_remove_def word_less_nat_alt)
  qed
qed

lemma fastset_remove_present:
  assumes inv: "fastset_inv s" and nn: "0 \<le> sint x" and mem: "x \<in> set (elems s)"
  shows "\<exists>s'. fastset_remove s x = Some s' \<and> fastset_inv s'
          \<and> set (elems s') = set (elems s) - {x}
          \<and> unat (members s') = unat (members s) - 1
          \<and> limit s' = limit s"
proof -
  note len = fastset_inv_len [OF inv]
  let ?n = "unat (members s)"
  let ?idx = "index_arr s ! unat x"
  let ?p = "unat ?idx"
  let ?last = "member_arr s ! (?n - 1)"
  let ?s = "s\<lparr>members := members s - 1, index_arr := (index_arr s)[unat ?last := ?idx],
      member_arr := (member_arr s)[?p := ?last]\<rparr>"
  note pos = fastset_inv_at [OF inv]
  from fastset_inv_elem [OF inv mem] have lt: "unat x < unat (limit s)" and p: "?p < ?n"
    and at_p: "member_arr s ! ?p = x" by simp_all
  from p have n0: "members s \<noteq> 0" by (auto simp: unat_eq_0)
  then have n1: "unat (members s - 1) = ?n - 1" by (rule unat_minus_one)
  have last_lt: "?n - 1 < ?n" using p by simp
  have last_lim: "unat ?last < unat (limit s)" and last_pos: "unat (index_arr s ! unat ?last) = ?n - 1"
    using pos [OF last_lt] by simp_all
  have get: "array_get (index_arr s) (sint x) = Some ?idx"
    using lt len by (simp add: sint_nonneg_uint [OF nn] array_get_uint)
  have rm: "fastset_remove s x = Some ?s"
    using lt p at_p get len last_lim n1
    by (simp add: fastset_remove_def array_get_uint array_set_uint word_less_nat_alt Let_def)
  have inv': "fastset_inv ?s"
    unfolding fastset_inv_pos
  proof (intro conjI allI impI)
    show "length (member_arr ?s) = unat (limit ?s)" "length (index_arr ?s) = unat (limit ?s)"
      using len by simp_all
    show "unat (members ?s) \<le> unat (limit ?s)" using len n1 by simp
  next
    fix i assume "i < unat (members ?s)"
    then have i: "i < ?n - 1" using n1 by simp
    then have i': "i < ?n" by simp
    have "unat (member_arr ?s ! i) < unat (limit ?s)
        \<and> unat (index_arr ?s ! unat (member_arr ?s ! i)) = i"
    proof (cases "i = ?p")
      case True
      then show ?thesis using p len last_lim by simp
    next
      case False
      have "unat (index_arr s ! unat (member_arr s ! i)) \<noteq> unat (index_arr s ! unat ?last)"
        using pos(2) [OF i'] last_pos i by simp
      then have "unat (member_arr s ! i) \<noteq> unat ?last" by auto
      with False pos [OF i'] show ?thesis by simp
    qed
    then show "unat (member_arr ?s ! i) < unat (limit ?s)"
      "unat (index_arr ?s ! unat (member_arr ?s ! i)) = i" by simp_all
  qed
  have where_is: "i = j" if "i < ?n" "j < ?n" "member_arr s ! i = member_arr s ! j" for i j
  proof -
    have "i = unat (index_arr s ! unat (member_arr s ! i))"
      by (rule pos(2) [OF that(1), symmetric])
    also have "\<dots> = unat (index_arr s ! unat (member_arr s ! j))"
      by (simp only: that(3))
    also have "\<dots> = j" by (rule pos(2) [OF that(2)])
    finally show ?thesis .
  qed
  let ?M' = "(member_arr s)[?p := ?last]"
  have upd_p: "?M' ! ?p = ?last" using p len by simp
  have upd_other: "?M' ! i = member_arr s ! i" if "i \<noteq> ?p" for i
    using that by simp
  have in_old: "y \<in> set (elems s) \<longleftrightarrow> (\<exists>i < ?n. member_arr s ! i = y)" for y
    by (rule elems_conv_nth [OF len(1,3)])
  have len': "length (member_arr ?s) = unat (limit ?s)" "unat (members ?s) \<le> unat (limit ?s)"
    using len n1 by simp_all
  have in_new: "y \<in> set (elems ?s) \<longleftrightarrow> (\<exists>i < ?n - 1. ?M' ! i = y)" for y
    using elems_conv_nth [OF len', of y] by (simp add: n1)
  have "set (elems ?s) = set (elems s) - {x}"
  proof (intro set_eqI iffI)
    fix y assume "y \<in> set (elems ?s)"
    then obtain i where i: "i < ?n - 1" and y: "?M' ! i = y"
      unfolding in_new by blast
    from i have i': "i < ?n" by simp
    show "y \<in> set (elems s) - {x}"
    proof (cases "i = ?p")
      case True
      then have yl: "y = ?last" using y upd_p by simp
      have "?last \<noteq> x"
      proof
        assume "?last = x"
        then have "member_arr s ! (?n - 1) = member_arr s ! ?p" using at_p by simp
        from where_is [OF last_lt p this] True i show False by simp
      qed
      moreover have "?last \<in> set (elems s)"
        unfolding in_old using last_lt by blast
      ultimately show ?thesis using yl by simp
    next
      case False
      then have yi: "member_arr s ! i = y" using y upd_other by simp
      have "y \<noteq> x"
      proof
        assume "y = x"
        then have "member_arr s ! i = member_arr s ! ?p" using yi at_p by simp
        from where_is [OF i' p this] False show False by simp
      qed
      moreover have "y \<in> set (elems s)"
        unfolding in_old using yi i' by blast
      ultimately show ?thesis by simp
    qed
  next
    fix y assume "y \<in> set (elems s) - {x}"
    then have "y \<in> set (elems s)" and ne: "y \<noteq> x" by simp_all
    then obtain j where j: "j < ?n" and y: "member_arr s ! j = y"
      unfolding in_old by blast
    have jp: "j \<noteq> ?p" using y at_p ne by auto
    show "y \<in> set (elems ?s)"
    proof (cases "j = ?n - 1")
      case True
      with jp p have "?p < ?n - 1" by simp
      moreover have "?M' ! ?p = y" using upd_p True y by simp
      ultimately show ?thesis unfolding in_new by blast
    next
      case False
      with j have "j < ?n - 1" by simp
      moreover have "?M' ! j = y" using upd_other [OF jp] y by simp
      ultimately show ?thesis unfolding in_new by blast
    qed
  qed
  with rm inv' n1 show ?thesis by simp
qed

lemma fastset_pop_ok:
  assumes inv: "fastset_inv s"
  shows "\<exists>v s'. fastset_pop s = Some (v, s') \<and> fastset_inv s'
          \<and> (members s = 0 \<longrightarrow> v = - 1 \<and> s' = s)
          \<and> (members s \<noteq> 0 \<longrightarrow> v \<in> set (elems s) \<and> elems s' = butlast (elems s)
                \<and> unat (members s') = unat (members s) - 1)"
proof (cases "members s = 0")
  case True
  then show ?thesis using inv by (simp add: fastset_pop_def)
next
  case False
  note len = fastset_inv_len [OF inv]
  let ?n = "unat (members s)"
  let ?s = "s\<lparr>members := members s - 1\<rparr>"
  have n1: "unat (members s - 1) = ?n - 1" using False by (rule unat_minus_one)
  have n0: "0 < ?n" using False by (simp add: unat_gt_0)
  have pop: "fastset_pop s = Some (member_arr s ! (?n - 1), ?s)"
    using False n1 n0 len by (simp add: fastset_pop_def array_get_uint Let_def)
  have "fastset_inv ?s"
    unfolding fastset_inv_pos
  proof (intro conjI allI impI)
    show "length (member_arr ?s) = unat (limit ?s)" "length (index_arr ?s) = unat (limit ?s)"
      using len by simp_all
    show "unat (members ?s) \<le> unat (limit ?s)" using len n1 by simp
  next
    fix i assume "i < unat (members ?s)"
    then have "i < ?n" using n1 by simp
    from fastset_inv_at [OF inv this]
    show "unat (member_arr ?s ! i) < unat (limit ?s)"
      "unat (index_arr ?s ! unat (member_arr ?s ! i)) = i" by simp_all
  qed
  moreover have "member_arr s ! (?n - 1) \<in> set (elems s)"
    using n0 by (auto simp: elems_conv_nth [OF len(1,3)] intro: exI [of _ "?n - 1"])
  moreover have "elems ?s = butlast (elems s)"
    using len n0 by (simp add: elems_def n1 butlast_take)
  ultimately show ?thesis using pop False n1 by simp
qed

lemma fastset_add_max:
  assumes "fastset_inv s"
  shows "fastset_add a s (- 1) = None"
proof -
  have "unat (limit s) \<le> unat (- 1 :: u32)"
    by (simp add: word_le_nat_alt [symmetric])
  then have "\<not> unat (- 1 :: u32) < length (index_arr s)"
    using fastset_inv_len(2) [OF assms] by simp
  then have "fastset_store s (- 1) = None"
    by (simp add: fastset_store_def array_set_uint Let_def)
  moreover have "fastset_resize a s (- 1 + 1) = s"
    by (simp add: fastset_resize_def)
  ultimately show ?thesis by (simp add: fastset_add_def)
qed

lemma fastset_add_inv:
  assumes "fastset_inv s" and "fastset_add a s x = Some s'"
  shows "fastset_inv s'"
proof (cases "x = - 1")
  case True
  with fastset_add_max [OF assms(1), of a] assms(2) show ?thesis by simp
next
  case False
  from fastset_add_ok [OF assms(1) False, of a] assms(2) show ?thesis by auto
qed

lemma fastset_remove_negative:
  assumes "x < limit s" and "sint x < 0"
  shows "fastset_remove s x = None"
  using assms by (simp add: fastset_remove_def array_get_def)

lemma fastset_remove_inv:
  assumes inv: "fastset_inv s" and rm: "fastset_remove s x = Some s'"
  shows "fastset_inv s'"
proof -
  have ok: "0 \<le> sint x \<or> limit s \<le> x"
  proof (rule ccontr)
    assume "\<not> (0 \<le> sint x \<or> limit s \<le> x)"
    then have "x < limit s" "sint x < 0" by (simp_all add: not_le)
    from fastset_remove_negative [OF this] rm show False by simp
  qed
  show ?thesis
  proof (cases "x \<in> set (elems s)")
    case False
    from fastset_remove_absent [OF inv ok False] rm inv show ?thesis by simp
  next
    case True
    then have "unat x < unat (limit s)" by (rule fastset_inv_elem(1) [OF inv])
    then have "\<not> limit s \<le> x" by (simp add: word_le_nat_alt)
    with ok have "0 \<le> sint x" by simp
    from fastset_remove_present [OF inv this True] rm show ?thesis by auto
  qed
qed

lemma fastset_pop_inv:
  assumes "fastset_inv s" and "fastset_pop s = Some (v, s')"
  shows "fastset_inv s'"
  using fastset_pop_ok [OF assms(1)] assms(2) by auto

lemma fastset_reachable_inv:
  assumes "fastset_reachable s"
  shows "fastset_inv s"
  using assms
proof induction
  case (init s)
  show ?case by (rule fastset_init_inv)
next
  case (vacate s)
  then show ?case by (simp add: fastset_vacate_inv)
next
  case (add s a x s')
  then show ?case by (simp add: fastset_add_inv)
next
  case (remove s x s')
  then show ?case by (simp add: fastset_remove_inv)
next
  case (pop s v s')
  then show ?case by (simp add: fastset_pop_inv)
qed

lemma fastset_inv_rep:
  assumes inv: "fastset_inv s"
  shows "rep_invariant s"
  unfolding rep_invariant_def
proof (intro conjI allI impI ballI)
  fix x assume "x \<in> set (elems s)"
  with inv show "x < limit s" "index_arr s ! unat x < members s"
    "member_arr s ! unat (index_arr s ! unat x) = x"
    by (simp_all add: fastset_inv_def)
next
  fix x assume new: "x \<notin> set (elems s)"
  show "x \<ge> limit s \<or> index_arr s ! unat x \<ge> members s
        \<or> member_arr s ! unat (index_arr s ! unat x) \<noteq> x"
  proof (cases "x < limit s")
    case False
    then show ?thesis by (simp add: not_less)
  next
    case True
    then have "unat x < unat (limit s)" by (simp add: word_less_nat_alt)
    from fastset_probe [OF inv this] new show ?thesis
      by (auto simp: word_less_nat_alt word_le_nat_alt)
  qed
qed

lemma ex_set_steps:
  "fastset_add ex_alloc (fastset_init ex_garbage) 3 =
     Some \<lparr>members = 1, limit = 4, member_arr = [3, 7, 7, 7], index_arr = [0, 0, 0, 0]\<rparr>"
  "fastset_add ex_alloc \<lparr>members = 1, limit = 4, member_arr = [3, 7, 7, 7], index_arr = [0, 0, 0, 0]\<rparr> 1
     = Some ex_set"
  by code_simp+

lemma ex_set_reachable: "fastset_reachable ex_set"
  by (rule fastset_reachable.add [OF fastset_reachable.add [OF fastset_reachable.init ex_set_steps(1)]
        ex_set_steps(2)])

lemma fastset_contains_True_nonneg:
  assumes "fastset_contains s x = Some True"
  shows "0 \<le> sint x"
proof (rule ccontr)
  assume "\<not> 0 \<le> sint x"
  then have "array_get (index_arr s) (sint x) = None" by (simp add: array_get_def)
  with assms show False by (simp add: fastset_contains_def split: if_splits)
qed

lemma fastset_contains_negative:
  assumes "sint x < 0"
  shows "fastset_contains s x = (if x < limit s then None else Some False)"
  using assms by (simp add: fastset_contains_def array_get_def)

lemma ex_set_inv: "fastset_inv ex_set"
  by (rule fastset_reachable_inv [OF ex_set_reachable])

section \<open>Properties of fast sets\<close>

text \<open>
  C7. Every set obtained from \<^verbatim>\<open>fastset_init\<close> by any sequence of \<^verbatim>\<open>fastset_vacate\<close>,
  \<^verbatim>\<open>fastset_add\<close>, \<^verbatim>\<open>fastset_remove\<close> and \<^verbatim>\<open>fastset_pop\<close> satisfies the representation
  invariant: each member \<open>x\<close> is below the limit, \<^verbatim>\<open>set->index[x]\<close> is a position below
  \<^verbatim>\<open>set->members\<close>, and \<^verbatim>\<open>set->member[]\<close> holds \<open>x\<close> there; each non-member is at or above the
  limit, or has an index entry at or above \<^verbatim>\<open>set->members\<close>, or does not find itself in the
  member array. This holds whatever the memory held before \<^verbatim>\<open>fastset_init\<close> and whatever an
  allocation leaves in the new slots. On such a set the operations stay inside the arrays:
  \<^verbatim>\<open>fastset_add\<close> of any value but \<^verbatim>\<open>UINT_MAX\<close>, \<^verbatim>\<open>fastset_remove\<close> of any nonnegative
  \<^verbatim>\<open>int\<close> and \<^verbatim>\<open>fastset_pop\<close> all return.
\<close>

theorem fastset_invariant:
  assumes "fastset_reachable s"
  shows "rep_invariant s \<and> fastset_inv s
       \<and> (\<forall>a x. x \<noteq> - 1 \<longrightarrow> fastset_add a s x \<noteq> None)
       \<and> (\<forall>x. 0 \<le> sint x \<longrightarrow> fastset_remove s x \<noteq> None)
       \<and> fastset_pop s \<noteq> None"
proof -
  have inv: "fastset_inv s" by (rule fastset_reachable_inv [OF assms])
  have "fastset_add a s x \<noteq> None" if "x \<noteq> - 1" for a x
    using fastset_add_ok [OF inv that, of a] by auto
  moreover have "fastset_remove s x \<noteq> None" if "0 \<le> sint x" for x
  proof (cases "x \<in> set (elems s)")
    case True
    from fastset_remove_present [OF inv that True] show ?thesis by auto
  next
    case False
    from fastset_remove_absent [OF inv _ False] that show ?thesis by simp
  qed
  moreover have "fastset_pop s \<noteq> None"
    using fastset_pop_ok [OF inv] by auto
  ultimately show ?thesis using inv fastset_inv_rep [OF inv] by simp
qed

theorem fastset_invariant_witness:
  "fastset_reachable ex_set \<and> rep_invariant ex_set \<and> fastset_inv ex_set
   \<and> fastset_add ex_alloc ex_set 6 \<noteq> None \<and> fastset_remove ex_set 3 \<noteq> None
   \<and> fastset_pop ex_set \<noteq> None"
proof -
  have "(6::u32) \<noteq> - 1" "0 \<le> sint (3::u32)" by simp_all
  with fastset_invariant [OF ex_set_reachable] ex_set_reachable show ?thesis by simp
qed

text \<open>
  C8. On a set that satisfies the invariant, \<^verbatim>\<open>fastset_add\<close> of a nonnegative \<open>x\<close> returns a
  set that satisfies it, and afterwards \<^verbatim>\<open>fastset_contains\<close> of \<open>x\<close> is true. The count
  \<^verbatim>\<open>set->members\<close> is unchanged when \<open>x\<close> was a member and larger by exactly one (without
  wrapping) when it was not; the members are the old ones and \<open>x\<close>, so every value that was
  contained still is; and adding \<open>x\<close> again changes nothing.
\<close>

theorem fastset_add_contains:
  assumes inv: "fastset_inv s" and nn: "0 \<le> sint x"
  shows "\<exists>s'. fastset_add a s x = Some s' \<and> fastset_inv s'
         \<and> fastset_contains s' x = Some True
         \<and> (fastset_contains s x = Some True \<or> fastset_contains s x = Some False)
         \<and> unat (members s') =
               (if fastset_contains s x = Some True then unat (members s) else unat (members s) + 1)
         \<and> set (elems s') = insert x (set (elems s))
         \<and> (\<forall>y. fastset_contains s y = Some True \<longrightarrow> fastset_contains s' y = Some True)
         \<and> fastset_add a' s' x = Some s'"
proof -
  have x: "x \<noteq> - 1" by (rule sint_nonneg_not_max [OF nn])
  from fastset_add_ok [OF inv x, of a] obtain s' where
    add: "fastset_add a s x = Some s'" and inv': "fastset_inv s'"
    and old: "x \<in> set (elems s) \<longrightarrow> s' = s"
    and new: "x \<notin> set (elems s) \<longrightarrow>
                elems s' = elems s @ [x] \<and> unat (members s') = Suc (unat (members s))"
    by blast
  have el: "set (elems s') = insert x (set (elems s))"
    using old new by (cases "x \<in> set (elems s)") auto
  have c: "fastset_contains s x = Some (x \<in> set (elems s))"
    by (rule fastset_contains_elems [OF inv nn])
  have c': "fastset_contains s' x = Some True"
    using fastset_contains_elems [OF inv' nn] el by simp
  have count: "unat (members s') =
      (if fastset_contains s x = Some True then unat (members s) else unat (members s) + 1)"
    using old new c by (cases "x \<in> set (elems s)") simp_all
  have keep: "fastset_contains s' y = Some True" if y: "fastset_contains s y = Some True" for y
  proof -
    have ny: "0 \<le> sint y" by (rule fastset_contains_True_nonneg [OF y])
    from y fastset_contains_elems [OF inv ny] have "y \<in> set (elems s)" by simp
    with el fastset_contains_elems [OF inv' ny] show ?thesis by simp
  qed
  have again: "fastset_add a' s' x = Some s'"
  proof -
    have "x \<in> set (elems s')" using el by simp
    with fastset_add_ok [OF inv' x, of a'] show ?thesis by auto
  qed
  from add inv' c' c count el keep again show ?thesis by simp
qed

theorem fastset_add_contains_witness:
  "fastset_add ex_alloc ex_set 2 =
     Some \<lparr>members = 3, limit = 4, member_arr = [3, 1, 2, 7], index_arr = [0, 1, 2, 0]\<rparr>
   \<and> fastset_contains \<lparr>members = 3, limit = 4, member_arr = [3, 1, 2, 7], index_arr = [0, 1, 2, 0]\<rparr> 2
       = Some True
   \<and> fastset_contains ex_set 2 = Some False
   \<and> unat (members \<lparr>members = 3, limit = 4, member_arr = [3, 1, 2, 7], index_arr = [0, 1, 2, 0]\<rparr>)
       = unat (members ex_set) + 1
   \<and> fastset_add ex_alloc ex_set 3 = Some ex_set
   \<and> fastset_contains ex_set 3 = Some True"
proof -
  let ?s' = "\<lparr>members = 3, limit = 4, member_arr = [3, 1, 2, 7], index_arr = [0, 1, 2, 0]\<rparr>"
  have nn: "0 \<le> sint (2::u32)" "0 \<le> sint (3::u32)" by simp_all
  have add2: "fastset_add ex_alloc ex_set 2 = Some ?s'"
    and add3: "fastset_add ex_alloc ex_set 3 = Some ex_set"
    and c2: "fastset_contains ex_set 2 = Some False"
    and c3: "fastset_contains ex_set 3 = Some True"
    by code_simp+
  from fastset_add_contains [OF ex_set_inv nn(1), of ex_alloc ex_alloc] add2 c2
  have a: "fastset_contains ?s' 2 = Some True" "unat (members ?s') = unat (members ex_set) + 1"
    by simp_all
  from a add2 add3 c2 c3 show ?thesis by (intro conjI)
qed

text \<open>
  C9. On a set that satisfies the invariant, \<^verbatim>\<open>fastset_remove\<close> of a current member \<open>x\<close>
  returns a set that satisfies it, in which \<^verbatim>\<open>fastset_contains\<close> of \<open>x\<close> is false and
  \<^verbatim>\<open>fastset_contains\<close> of every other value answers as before: the other members stay and
  no member appears. The members are the old ones without \<open>x\<close>, still distinct, and the
  count \<^verbatim>\<open>set->members\<close> is smaller by exactly one.
\<close>

theorem fastset_remove_member:
  assumes inv: "fastset_inv s" and mem: "fastset_contains s x = Some True"
  shows "\<exists>s'. fastset_remove s x = Some s' \<and> fastset_inv s'
         \<and> fastset_contains s' x = Some False
         \<and> (\<forall>y. y \<noteq> x \<longrightarrow> fastset_contains s' y = fastset_contains s y)
         \<and> set (elems s') = set (elems s) - {x}
         \<and> distinct (elems s') \<and> distinct (elems s)
         \<and> 0 < unat (members s)
         \<and> unat (members s') = unat (members s) - 1"
proof -
  have nn: "0 \<le> sint x" by (rule fastset_contains_True_nonneg [OF mem])
  from mem fastset_contains_elems [OF inv nn] have x: "x \<in> set (elems s)" by simp
  from fastset_remove_present [OF inv nn x] obtain s' where
    rm: "fastset_remove s x = Some s'" and inv': "fastset_inv s'"
    and el: "set (elems s') = set (elems s) - {x}"
    and count: "unat (members s') = unat (members s) - 1"
    and lim: "limit s' = limit s" by blast
  have gone: "fastset_contains s' x = Some False"
    using fastset_contains_elems [OF inv' nn] el by simp
  have others: "fastset_contains s' y = fastset_contains s y" if "y \<noteq> x" for y
  proof (cases "0 \<le> sint y")
    case True
    from fastset_contains_elems [OF inv' True] fastset_contains_elems [OF inv True] el that
    show ?thesis by simp
  next
    case False
    then have "sint y < 0" by simp
    then show ?thesis by (simp add: fastset_contains_negative lim)
  qed
  have pos: "0 < unat (members s)"
    using x length_elems [OF inv] by (cases "elems s") auto
  have "distinct (elems s')" "distinct (elems s)"
    using inv inv' by (simp_all add: fastset_inv_def)
  with rm inv' gone others el pos count show ?thesis by simp
qed

theorem fastset_remove_member_witness:
  "fastset_contains ex_set 3 = Some True
   \<and> fastset_remove ex_set 3 =
       Some \<lparr>members = 1, limit = 4, member_arr = [1, 1, 7, 7], index_arr = [0, 0, 0, 0]\<rparr>
   \<and> fastset_contains \<lparr>members = 1, limit = 4, member_arr = [1, 1, 7, 7], index_arr = [0, 0, 0, 0]\<rparr> 3
       = Some False
   \<and> fastset_contains \<lparr>members = 1, limit = 4, member_arr = [1, 1, 7, 7], index_arr = [0, 0, 0, 0]\<rparr> 1
       = Some True
   \<and> unat (members \<lparr>members = 1, limit = 4, member_arr = [1, 1, 7, 7], index_arr = [0, 0, 0, 0]\<rparr>)
       = unat (members ex_set) - 1"
proof -
  let ?s' = "\<lparr>members = 1, limit = 4, member_arr = [1, 1, 7, 7], index_arr = [0, 0, 0, 0]\<rparr>"
  have c3: "fastset_contains ex_set 3 = Some True"
    and c1: "fastset_contains ex_set 1 = Some True"
    and rm: "fastset_remove ex_set 3 = Some ?s'"
    by code_simp+
  have ne: "(1::u32) \<noteq> 3" by simp
  from fastset_remove_member [OF ex_set_inv c3] rm
  have a: "fastset_contains ?s' 3 = Some False"
    "\<forall>y. y \<noteq> 3 \<longrightarrow> fastset_contains ?s' y = fastset_contains ex_set y"
    "unat (members ?s') = unat (members ex_set) - 1"
    by simp_all
  from a(2) ne c1 have "fastset_contains ?s' 1 = Some True" by simp
  with a(1,3) c3 rm show ?thesis by (intro conjI)
qed

end
